theory Spec2Isabelle
  imports Main
begin

section \<open>Strings\<close>

text \<open>
  A JavaScript string is a sequence of UTF-16 code units. The model keeps the code units
  0..255 (Basic Latin and Latin-1), one \<^typ>\<open>char\<close> each, and gives the library
  functions the values they have on that range.
\<close>

definition code :: "char \<Rightarrow> nat" where
  "code c = of_char c"

definition isDigit :: "char \<Rightarrow> bool" where
  \<comment> \<open>the class \<open>\d\<close>\<close>
  "isDigit c = (48 \<le> code c \<and> code c \<le> 57)"

definition isUpper :: "char \<Rightarrow> bool" where
  \<comment> \<open>the class \<open>[A-Z]\<close>\<close>
  "isUpper c = (65 \<le> code c \<and> code c \<le> 90)"

definition isLower :: "char \<Rightarrow> bool" where
  \<comment> \<open>the class \<open>[a-z]\<close>\<close>
  "isLower c = (97 \<le> code c \<and> code c \<le> 122)"

definition isWordChar :: "char \<Rightarrow> bool" where
  \<comment> \<open>the class \<open>\w\<close>, that is \<open>[A-Za-z0-9_]\<close>\<close>
  "isWordChar c = (isUpper c \<or> isLower c \<or> isDigit c \<or> c = CHR ''_'')"

definition isLatinUpper :: "char \<Rightarrow> bool" where
  \<comment> \<open>the capital letters of Latin-1, U+00C0 to U+00DE without the multiplication sign\<close>
  "isLatinUpper c = (192 \<le> code c \<and> code c \<le> 222 \<and> code c \<noteq> 215)"

definition isLatinLower :: "char \<Rightarrow> bool" where
  \<comment> \<open>the small letters of Latin-1 that have a capital in Latin-1: U+00E0 to U+00FE
      without the division sign\<close>
  "isLatinLower c = (224 \<le> code c \<and> code c \<le> 254 \<and> code c \<noteq> 247)"

definition lowerChar :: "char \<Rightarrow> char" where
  "lowerChar c = (if isUpper c \<or> isLatinUpper c then char_of (code c + 32) else c)"

definition toLowerCase :: "string \<Rightarrow> string" where
  \<comment> \<open>\<open>String.prototype.toLowerCase\<close>\<close>
  "toLowerCase s = map lowerChar s"

definition canonicalize :: "char \<Rightarrow> char" where
  \<comment> \<open>how a regular expression with the flag \<open>i\<close> (and without \<open>u\<close>) compares
      characters: by their capital. The micro sign and U+00FF have capitals outside the
      range, equal to no character of the range, so they stay.\<close>
  "canonicalize c = (if isLower c \<or> isLatinLower c then char_of (code c - 32) else c)"

definition eq_ci :: "string \<Rightarrow> string \<Rightarrow> bool" where
  "eq_ci a b = (map canonicalize a = map canonicalize b)"

fun str_includes :: "string \<Rightarrow> string \<Rightarrow> bool" where
  \<comment> \<open>\<open>s.includes(p)\<close>: \<open>p\<close> occurs in \<open>s\<close>\<close>
  "str_includes [] p = (p = [])"
| "str_includes (c # s) p = (take (length p) (c # s) = p \<or> str_includes s p)"

fun includes_ci :: "string \<Rightarrow> string \<Rightarrow> bool" where
  \<comment> \<open>an unanchored literal \<open>/p/i\<close> tested on \<open>s\<close>\<close>
  "includes_ci [] p = (p = [])"
| "includes_ci (c # s) p = (eq_ci (take (length p) (c # s)) p \<or> includes_ci s p)"

definition endsWith_ci :: "string \<Rightarrow> string \<Rightarrow> bool" where
  \<comment> \<open>a literal anchored at the end, \<open>/p$/i\<close>, tested on \<open>s\<close>\<close>
  "endsWith_ci s p = (length p \<le> length s \<and> eq_ci (drop (length s - length p) s) p)"

fun splitOn :: "char \<Rightarrow> string \<Rightarrow> string list" where
  \<comment> \<open>\<open>s.split(c)\<close> for a separator of one character: one more part than separators\<close>
  "splitOn c [] = [[]]"
| "splitOn c (x # xs) =
     (if x = c then [] # splitOn c xs
      else (case splitOn c xs of
              [] \<Rightarrow> [[x]]
            | p # ps \<Rightarrow> (x # p) # ps))"

definition setInsert :: "'a list \<Rightarrow> 'a \<Rightarrow> 'a list" where
  \<comment> \<open>\<open>Set.prototype.add\<close>: a Set keeps the order of first insertion\<close>
  "setInsert acc x = (if x \<in> set acc then acc else acc @ [x])"

definition uniq :: "'a list \<Rightarrow> 'a list" where
  \<comment> \<open>\<open>[...new Set(xs)]\<close>\<close>
  "uniq xs = foldl setInsert [] xs"

section \<open>WikiLinkService: categorizeLink and generateAliases\<close>

datatype WikiLinkType = Person | Topic | Place | Concept | Date | Unknown

fun dotTwoDigits :: "string \<Rightarrow> string option" where
  \<comment> \<open>\<open>\.\d{2}\<close> at the head of the string; the rest after it\<close>
  "dotTwoDigits (p # a # b # r) =
     (if p = CHR ''.'' \<and> isDigit a \<and> isDigit b then Some r else None)"
| "dotTwoDigits _ = None"

definition dateTail :: "string \<Rightarrow> bool" where
  \<comment> \<open>\<open>\.\d{2}\.\d{2}$\<close>\<close>
  "dateTail s =
     (case dotTwoDigits s of
        None \<Rightarrow> False
      | Some r \<Rightarrow> (case dotTwoDigits r of None \<Rightarrow> False | Some r' \<Rightarrow> r' = []))"

definition isDatePattern :: "string \<Rightarrow> bool" where
  \<comment> \<open>\<open>/^\d{1,2}\.\d{2}\.\d{2}$/\<close>: two leading digits are tried first, then one\<close>
  "isDatePattern s =
     (case s of
        [] \<Rightarrow> False
      | a # r \<Rightarrow>
          isDigit a \<and>
          ((case r of [] \<Rightarrow> False | b # r' \<Rightarrow> isDigit b \<and> dateTail r') \<or> dateTail r))"

definition capitalizedWord :: "string \<Rightarrow> string option" where
  \<comment> \<open>\<open>[A-Z][a-z]+\<close> at the head of the string; the rest after it. The repetition is
      greedy, and what follows it in the pattern (a space, or the end) never matches a
      small letter, so only the longest run can succeed.\<close>
  "capitalizedWord s =
     (case s of
        [] \<Rightarrow> None
      | c # r \<Rightarrow>
          if isUpper c \<and> takeWhile isLower r \<noteq> [] then Some (dropWhile isLower r)
          else None)"

definition isPersonPattern :: "string \<Rightarrow> bool" where
  \<comment> \<open>\<open>/^[A-Z][a-z]+ [A-Z][a-z]+$/\<close>\<close>
  "isPersonPattern s =
     (case capitalizedWord s of
        None \<Rightarrow> False
      | Some [] \<Rightarrow> False
      | Some (sp # r) \<Rightarrow> sp = CHR '' '' \<and> capitalizedWord r = Some [])"

definition isPlacePattern :: "string \<Rightarrow> bool" where
  \<comment> \<open>\<open>/National Park|2025|2026|Park$|Japan|Mt\.|Lake |River /i\<close>\<close>
  "isPlacePattern s =
     (includes_ci s ''National Park'' \<or> includes_ci s ''2025'' \<or> includes_ci s ''2026'' \<or>
      endsWith_ci s ''Park'' \<or> includes_ci s ''Japan'' \<or> includes_ci s ''Mt.'' \<or>
      includes_ci s ''Lake '' \<or> includes_ci s ''River '')"

definition isConceptPattern :: "string \<Rightarrow> bool" where
  \<comment> \<open>\<open>/^(Lord|Christ|God|Heavenly Father|Holy Ghost|Faith|Gospel)$/i\<close>\<close>
  "isConceptPattern s =
     (eq_ci s ''Lord'' \<or> eq_ci s ''Christ'' \<or> eq_ci s ''God'' \<or>
      eq_ci s ''Heavenly Father'' \<or> eq_ci s ''Holy Ghost'' \<or> eq_ci s ''Faith'' \<or>
      eq_ci s ''Gospel'')"

definition categorizeLink :: "string \<Rightarrow> WikiLinkType" where
  "categorizeLink text =
     (if isDatePattern text then Date
      else if isPersonPattern text then Person
      else if isPlacePattern text then Place
      else if isConceptPattern text then Concept
      else Unknown)"

definition generateAliases :: "string \<Rightarrow> string list" where
  \<comment> \<open>\<open>split\<close> gives at least one part, so \<open>parts[0]\<close> is there\<close>
  "generateAliases text =
     (let aliases = [toLowerCase text];
          aliases' =
            (if str_includes text '' '' then
               (let parts = splitOn CHR '' '' text;
                    aliases1 = aliases @ [toLowerCase (case parts of [] \<Rightarrow> [] | p # _ \<Rightarrow> p)]
                in if length parts = 2 then aliases1 @ [toLowerCase (parts ! 1)]
                   else aliases1)
             else aliases)
      in uniq aliases')"

section \<open>The store: wiki_links and wiki_link_aliases\<close>

text \<open>
  A \<open>Date\<close> is its time value in milliseconds; \<open>toISOString\<close> followed by
  \<open>new Date\<close> gives the same time value back.

  A frequency is a JavaScript number, a double. The model covers the whole numbers
  among them, as an \<^typ>\<open>int\<close>; fractions, \<open>NaN\<close> and the infinities (magnitudes
  from \<open>2^1024\<close> on) are outside it. A double has a significand of 53 bits: up to
  \<open>2^53\<close> every whole number is a double, from there to \<open>2^54\<close> every second one,
  then every fourth, and so on. A sum is the exact sum rounded to the nearest double,
  and to the one of even significand when two are equally near.
\<close>

function ulpNat :: "nat \<Rightarrow> nat" where
  \<comment> \<open>the distance between the doubles around a whole number \<open>m\<close>\<close>
  "ulpNat m = (if m < 2 ^ 53 then 1 else 2 * ulpNat (m div 2))"
  by pat_completeness auto
termination
  by (relation "measure id") auto

declare ulpNat.simps [simp del]

definition roundTo :: "nat \<Rightarrow> nat \<Rightarrow> nat" where
  \<comment> \<open>the multiple of \<open>u\<close> nearest to \<open>m\<close>; of two equally near, the even multiple\<close>
  "roundTo u m =
     (let q = m div u; r = m mod u
      in if 2 * r < u then q * u
         else if u < 2 * r then (q + 1) * u
         else if even q then q * u
         else (q + 1) * u)"

definition roundNat :: "nat \<Rightarrow> nat" where
  "roundNat m = roundTo (ulpNat m) m"

definition toNumber :: "int \<Rightarrow> int" where
  \<comment> \<open>the double nearest to a whole number; rounding is the same on both sides of 0\<close>
  "toNumber n = (if n < 0 then - int (roundNat (nat (- n))) else int (roundNat (nat n)))"

definition jsPlus :: "int \<Rightarrow> int \<Rightarrow> int" where
  \<comment> \<open>\<open>a + b\<close> on numbers\<close>
  "jsPlus a b = toNumber (a + b)"

definition isNumber :: "int \<Rightarrow> bool" where
  \<comment> \<open>the whole number is a double\<close>
  "isNumber n = (toNumber n = n)"

record WikiLink =
  wl_id :: "nat option"
  linkText :: string
  linkType :: WikiLinkType
  frequency :: int
  aliases :: "string list"
  firstSeen :: int
  lastUsed :: int

record WikiLinkRow =
  row_id :: nat
  row_text :: string
  row_type :: WikiLinkType
  row_frequency :: int
  first_seen :: int
  last_used :: int

record WikiLinkAliasRow =
  alias_row_id :: nat
  link_id :: nat
  alias_text :: string

text \<open>
  The database as \<open>initializeSchema\<close> creates it. \<open>wiki_links\<close> has
  \<open>id INTEGER PRIMARY KEY AUTOINCREMENT\<close> and \<open>text TEXT UNIQUE NOT NULL\<close>;
  \<open>wiki_link_aliases\<close> has \<open>id INTEGER PRIMARY KEY AUTOINCREMENT\<close>,
  \<open>link_id INTEGER NOT NULL\<close> with a foreign key to \<open>wiki_links(id)\<close>
  (\<open>PRAGMA foreign_keys = ON\<close>) and \<open>alias TEXT NOT NULL\<close>, and no other
  constraint. Rows are kept in rowid order. An AUTOINCREMENT key is one more than the
  largest key the table ever held, which \<open>DELETE\<close> does not reset. \<open>available\<close>
  is False when the database cannot be opened or queried: every query then throws.
\<close>

record database =
  available :: bool
  wiki_links :: "WikiLinkRow list"
  wiki_link_aliases :: "WikiLinkAliasRow list"
  wiki_links_seq :: nat
  wiki_link_aliases_seq :: nat

datatype error = StoreUnavailable | ForeignKeyFailed

definition upsertWikiLink :: "database \<Rightarrow> int \<Rightarrow> WikiLink \<Rightarrow> error + (nat \<times> database)" where
  \<comment> \<open>\<open>now\<close> is the clock; the result holds the key of the row, updated or added\<close>
  "upsertWikiLink db now link =
     (if \<not> available db then Inl StoreUnavailable
      else
        (case find (\<lambda>r. row_text r = linkText link) (wiki_links db) of
           Some existing \<Rightarrow>
             Inr (row_id existing,
                  db\<lparr>wiki_links :=
                       map (\<lambda>r. if row_id r = row_id existing
                                then r\<lparr>row_frequency := jsPlus (row_frequency existing) 1,
                                       last_used := now,
                                       row_type := linkType link\<rparr>
                                else r)
                           (wiki_links db)\<rparr>)
         | None \<Rightarrow>
             (let new_id = wiki_links_seq db + 1
              in Inr (new_id,
                      db\<lparr>wiki_links :=
                           wiki_links db @
                             [\<lparr>row_id = new_id, row_text = linkText link,
                               row_type = linkType link, row_frequency = frequency link,
                               first_seen = firstSeen link, last_used = lastUsed link\<rparr>],
                         wiki_links_seq := new_id\<rparr>))))"

definition uniqueConflict :: "WikiLinkAliasRow list \<Rightarrow> WikiLinkAliasRow \<Rightarrow> bool" where
  \<comment> \<open>the conflicts that \<open>OR IGNORE\<close> turns into a skipped row: a uniqueness constraint
      of the table that the new row would break. The table's only one is its primary
      key \<open>id\<close>.\<close>
  "uniqueConflict rows new = list_ex (\<lambda>r. alias_row_id r = alias_row_id new) rows"

definition insertWikiLinkAlias :: "database \<Rightarrow> nat \<Rightarrow> string \<Rightarrow> error + database" where
  \<comment> \<open>\<open>INSERT OR IGNORE INTO wiki_link_aliases (link_id, alias) VALUES (?, ?)\<close>; a
      foreign key that fails is an error under every conflict clause\<close>
  "insertWikiLinkAlias db linkId a =
     (if \<not> available db then Inl StoreUnavailable
      else
        (let new = \<lparr>alias_row_id = wiki_link_aliases_seq db + 1, link_id = linkId,
                    alias_text = toLowerCase a\<rparr>
         in if uniqueConflict (wiki_link_aliases db) new then Inr db
            else if \<not> list_ex (\<lambda>r. row_id r = linkId) (wiki_links db)
            then Inl ForeignKeyFailed
            else Inr (db\<lparr>wiki_link_aliases := wiki_link_aliases db @ [new],
                        wiki_link_aliases_seq := alias_row_id new\<rparr>)))"

definition rowToLink :: "WikiLinkRow \<Rightarrow> string list \<Rightarrow> WikiLink" where
  "rowToLink row als =
     \<lparr>wl_id = Some (row_id row), linkText = row_text row, linkType = row_type row,
      frequency = row_frequency row, aliases = als,
      firstSeen = first_seen row, lastUsed = last_used row\<rparr>"

definition getAllWikiLinks :: "database \<Rightarrow> error + WikiLink list" where
  \<comment> \<open>\<open>SELECT * FROM wiki_links ORDER BY frequency DESC\<close>, then the aliases of each
      row. SQL leaves the order of rows of equal frequency open; the model keeps them
      in rowid order (a stable sort).\<close>
  "getAllWikiLinks db =
     (if \<not> available db then Inl StoreUnavailable
      else Inr (map (\<lambda>row. rowToLink row
                              (map alias_text (filter (\<lambda>a. link_id a = row_id row)
                                                 (wiki_link_aliases db))))
                    (sort_key (\<lambda>row. - row_frequency row) (wiki_links db))))"

definition sqlLower :: "string \<Rightarrow> string" where
  \<comment> \<open>SQLite's \<open>LOWER\<close> folds the ASCII letters only\<close>
  "sqlLower s = map (\<lambda>c. if isUpper c then char_of (code c + 32) else c) s"

definition findWikiLinkByAlias :: "database \<Rightarrow> string \<Rightarrow> error + WikiLink option" where
  \<comment> \<open>the alias row, then the link row, each the first in rowid order that the
      \<open>WHERE\<close> clause admits (\<open>LIMIT 1\<close>, \<open>getFirstAsync\<close>); text is compared
      code unit by code unit\<close>
  "findWikiLinkByAlias db a =
     (if \<not> available db then Inl StoreUnavailable
      else
        (case find (\<lambda>r. alias_text r = toLowerCase a) (wiki_link_aliases db) of
           None \<Rightarrow>
             (case find (\<lambda>r. sqlLower (row_text r) = toLowerCase a) (wiki_links db) of
                None \<Rightarrow> Inr None
              | Some linkRow \<Rightarrow> Inr (Some (rowToLink linkRow [])))
         | Some aliasRow \<Rightarrow>
             (case find (\<lambda>r. row_id r = link_id aliasRow) (wiki_links db) of
                None \<Rightarrow> Inr None
              | Some linkRow \<Rightarrow> Inr (Some (rowToLink linkRow [])))))"

definition clearWikiLinks :: "database \<Rightarrow> error + database" where
  \<comment> \<open>\<open>DELETE FROM wiki_link_aliases; DELETE FROM wiki_links;\<close>\<close>
  "clearWikiLinks db =
     (if \<not> available db then Inl StoreUnavailable
      else Inr (db\<lparr>wiki_link_aliases := [], wiki_links := []\<rparr>))"

section \<open>WikiLinkService: the cache and findMatch\<close>

text \<open>
  A JavaScript \<open>Map\<close> iterates in the order in which its keys were first set:
  setting a key that is present replaces the value where the key stands.
\<close>

type_synonym ('k, 'v) js_map = "('k \<times> 'v) list"

fun mapSet :: "('k, 'v) js_map \<Rightarrow> 'k \<Rightarrow> 'v \<Rightarrow> ('k, 'v) js_map" where
  "mapSet [] k v = [(k, v)]"
| "mapSet ((k', v') # m) k v = (if k' = k then (k, v) # m else (k', v') # mapSet m k v)"

definition mapGet :: "('k, 'v) js_map \<Rightarrow> 'k \<Rightarrow> 'v option" where
  "mapGet m k = map_of m k"

record service =
  cache :: "(string, WikiLink) js_map"
  cacheExpiry :: int

definition CACHE_TTL_MS :: int where
  "CACHE_TTL_MS = 60 * 60 * 1000"

definition cacheLink :: "(string, WikiLink) js_map \<Rightarrow> WikiLink \<Rightarrow> (string, WikiLink) js_map" where
  \<comment> \<open>the body of the loop of \<open>loadLinks\<close>\<close>
  "cacheLink m link =
     foldl (\<lambda>m' a. mapSet m' (toLowerCase a) link)
           (mapSet m (toLowerCase (linkText link)) link)
           (aliases link)"

definition loadLinks :: "service \<Rightarrow> database \<Rightarrow> int \<Rightarrow> error + service" where
  \<comment> \<open>\<open>now\<close> is the clock. The query is awaited ahead of clearing the cache, so a
      query that throws leaves the service as it was.\<close>
  "loadLinks svc db now =
     (if cache svc \<noteq> [] \<and> now < cacheExpiry svc then Inr svc
      else
        (case getAllWikiLinks db of
           Inl e \<Rightarrow> Inl e
         | Inr links \<Rightarrow>
             Inr \<lparr>cache = foldl cacheLink [] links, cacheExpiry = now + CACHE_TTL_MS\<rparr>))"

definition invalidateCache :: "service \<Rightarrow> service" where
  "invalidateCache svc = svc\<lparr>cacheExpiry := 0\<rparr>"

definition partialHit :: "string \<Rightarrow> string \<Rightarrow> bool" where
  \<comment> \<open>\<open>key.includes(lower) || lower.includes(key)\<close>\<close>
  "partialHit key lower = (str_includes key lower \<or> str_includes lower key)"

definition partialMatch :: "(string, WikiLink) js_map \<Rightarrow> string \<Rightarrow> WikiLink option" where
  \<comment> \<open>the loop over \<open>cache.entries()\<close> that returns at the first hit\<close>
  "partialMatch m lower = map_option snd (find (\<lambda>(key, link). partialHit key lower) m)"

definition findMatch ::
  "service \<Rightarrow> database \<Rightarrow> int \<Rightarrow> string \<Rightarrow> error + (WikiLink option \<times> service)" where
  \<comment> \<open>\<open>Inl\<close> is the rejected promise; the service is then as it was when called\<close>
  "findMatch svc db now text =
     (case loadLinks svc db now of
        Inl e \<Rightarrow> Inl e
      | Inr svc' \<Rightarrow>
          (let lower = toLowerCase text
           in case mapGet (cache svc') lower of
                Some link \<Rightarrow> Inr (Some link, svc')
              | None \<Rightarrow>
                  (case findWikiLinkByAlias db lower of
                     Inl e \<Rightarrow> Inl e
                   | Inr (Some dbMatch) \<Rightarrow> Inr (Some dbMatch, svc')
                   | Inr None \<Rightarrow> Inr (partialMatch (cache svc') lower, svc'))))"

section \<open>autoLinkText\<close>

definition startsWith :: "string \<Rightarrow> string \<Rightarrow> bool" where
  "startsWith s p = (take (length p) s = p)"

definition wordBoundary :: "string \<Rightarrow> string \<Rightarrow> bool" where
  \<comment> \<open>\<open>\b\<close> between the text read so far (reversed, nearest character first) and the
      text ahead: exactly one of the two neighbours is a word character\<close>
  "wordBoundary behind ahead =
     ((case behind of [] \<Rightarrow> False | c # _ \<Rightarrow> isWordChar c) \<noteq>
      (case ahead of [] \<Rightarrow> False | c # _ \<Rightarrow> isWordChar c))"

definition matchAt :: "bool \<Rightarrow> string \<Rightarrow> string \<Rightarrow> string \<Rightarrow> bool" where
  \<comment> \<open>\<open>(?<!\[\[)\b<text>\b(?!\]\])\<close> tried at one position, \<open>text\<close> taken
      literally (it is escaped); \<open>ci\<close> is the flag \<open>i\<close>. \<open>behind\<close> is the input
      up to the position, reversed; \<open>ahead\<close> is the input from the position on.\<close>
  "matchAt ci text behind ahead =
     (let n = length text;
          matched = take n ahead;
          rest = drop n ahead
      in \<not> startsWith behind ''[['' \<and>
         wordBoundary behind ahead \<and>
         (if ci then eq_ci matched text else matched = text) \<and>
         wordBoundary (rev matched @ behind) rest \<and>
         \<not> startsWith rest '']]'')"

fun getSubstitution :: "string \<Rightarrow> string \<Rightarrow> string \<Rightarrow> string \<Rightarrow> string" where
  \<comment> \<open>the replacement string of \<open>String.prototype.replace\<close> for a pattern without
      capture groups: \<open>$$\<close>, \<open>$&\<close>, \<open>$`\<close> and \<open>$'\<close> are expanded, every other
      character stands for itself\<close>
  "getSubstitution (a # b # t) matched pre post =
     (if a = CHR ''$'' \<and> b = CHR ''$'' then CHR ''$'' # getSubstitution t matched pre post
      else if a = CHR ''$'' \<and> b = CHR ''&'' then matched @ getSubstitution t matched pre post
      else if a = CHR ''$'' \<and> b = CHR 0x60 then pre @ getSubstitution t matched pre post
      else if a = CHR ''$'' \<and> b = CHR 0x27 then post @ getSubstitution t matched pre post
      else a # getSubstitution (b # t) matched pre post)"
| "getSubstitution t matched pre post = t"

fun replaceScan :: "bool \<Rightarrow> string \<Rightarrow> string \<Rightarrow> string \<Rightarrow> string \<Rightarrow> nat \<Rightarrow> string" where
  \<comment> \<open>\<open>input.replace(re, replacement)\<close> with the flag \<open>g\<close>, from one position on:
      \<open>behind\<close> is the input up to the position (reversed), the list is the input
      from it, \<open>skip\<close> counts the characters of the last match still to pass. The
      search resumes after a match; after an empty match it moves one character on.\<close>
  "replaceScan ci text repl behind [] skip =
     (if skip = 0 \<and> matchAt ci text behind []
      then getSubstitution repl [] (rev behind) []
      else [])"
| "replaceScan ci text repl behind (c # ahead) skip =
     (if 0 < skip then replaceScan ci text repl (c # behind) ahead (skip - 1)
      else if matchAt ci text behind (c # ahead)
      then (let n = length text
            in getSubstitution repl (take n (c # ahead)) (rev behind) (drop n (c # ahead)) @
               (if n = 0 then c # replaceScan ci text repl (c # behind) ahead 0
                else replaceScan ci text repl (c # behind) ahead (n - 1)))
      else c # replaceScan ci text repl (c # behind) ahead 0)"

definition replaceLink :: "bool \<Rightarrow> string \<Rightarrow> string \<Rightarrow> string" where
  \<comment> \<open>one turn of the loop: \<open>result.replace(re, `[[${link.text}]]`)\<close>\<close>
  "replaceLink ci result text =
     replaceScan ci text (''[['' @ text @ '']]'') [] result 0"

definition sortByTextLength :: "WikiLink list \<Rightarrow> WikiLink list" where
  \<comment> \<open>\<open>sort((a, b) => b.text.length - a.text.length)\<close>; the sort is stable\<close>
  "sortByTextLength links = sort_key (\<lambda>l. - int (length (linkText l))) links"

definition autoLinkText :: "string \<Rightarrow> WikiLink list \<Rightarrow> string" where
  \<comment> \<open>\<open>autoLinkText(text, wikiLinks)\<close> of the markdown generator: flag \<open>g\<close>\<close>
  "autoLinkText text wikiLinks =
     foldl (\<lambda>result link. replaceLink False result (linkText link))
           text (sortByTextLength wikiLinks)"

definition uniqueLinks :: "WikiLink list \<Rightarrow> WikiLink list" where
  \<comment> \<open>the links of the cache, the first of each text\<close>
  "uniqueLinks links =
     snd (foldl (\<lambda>(seen, allLinks) link.
                   if linkText link \<in> set seen then (seen, allLinks)
                   else (seen @ [linkText link], allLinks @ [link]))
                ([], []) links)"

definition serviceAutoLinkText ::
  "service \<Rightarrow> database \<Rightarrow> int \<Rightarrow> string \<Rightarrow> error + (string \<times> service)" where
  \<comment> \<open>\<open>WikiLinkService.autoLinkText\<close>: the links of the cache, flags \<open>gi\<close>\<close>
  "serviceAutoLinkText svc db now text =
     (case loadLinks svc db now of
        Inl e \<Rightarrow> Inl e
      | Inr svc' \<Rightarrow>
          Inr (foldl (\<lambda>result link. replaceLink True result (linkText link))
                     text (sortByTextLength (uniqueLinks (map snd (cache svc')))),
               svc'))"

section \<open>VaultService: scanVaultForLinks\<close>

text \<open>
  The vault as the file system shows it: a file with its text (\<open>None\<close> when it cannot
  be read), a directory with its entries by name, or a directory that
  \<open>readDirectoryAsync\<close> cannot read. \<open>getInfoAsync\<close> answers for every listed entry.
\<close>

datatype fsnode =
  File "string option"
| Dir "(string \<times> fsnode) list"
| UnreadableDir

definition isDirectory :: "fsnode \<Rightarrow> bool" where
  "isDirectory node = (case node of File _ \<Rightarrow> False | _ \<Rightarrow> True)"

definition endsWith :: "string \<Rightarrow> string \<Rightarrow> bool" where
  "endsWith s p = (length p \<le> length s \<and> drop (length s - length p) s = p)"

fun walk :: "string \<Rightarrow> fsnode \<Rightarrow> (string \<times> fsnode) list"
  and walkItems :: "string \<Rightarrow> (string \<times> fsnode) list \<Rightarrow> (string \<times> fsnode) list" where
  \<comment> \<open>\<open>walk\<close> of \<open>getAllMarkdownFiles\<close>: the paths pushed to \<open>files\<close>, each with the
      file it names. Reading a directory that cannot be read (or a path that is a file)
      throws inside the \<open>try\<close>, and the \<open>catch\<close> skips it.\<close>
  "walk current (Dir items) = walkItems current items"
| "walk current (File content) = []"
| "walk current UnreadableDir = []"
| "walkItems current [] = []"
| "walkItems current ((item, node) # items) =
     (let fullPath = current @ ''/'' @ item
      in (if isDirectory node then walk fullPath node
          else if endsWith item ''.md'' then [(fullPath, node)]
          else []) @
         walkItems current items)"

definition getAllMarkdownFiles :: "string \<Rightarrow> fsnode \<Rightarrow> (string \<times> fsnode) list" where
  \<comment> \<open>\<open>dir\<close> is the path, \<open>root\<close> what the file system holds there\<close>
  "getAllMarkdownFiles dir root = walk dir root"

definition readTextFile :: "fsnode \<Rightarrow> string option" where
  \<comment> \<open>\<open>null\<close> when the read throws\<close>
  "readTextFile node = (case node of File content \<Rightarrow> content | _ \<Rightarrow> None)"

definition isWhiteSpace :: "char \<Rightarrow> bool" where
  \<comment> \<open>what \<open>trim\<close> removes: tab, line feed, vertical tab, form feed, carriage return,
      space and no-break space\<close>
  "isWhiteSpace c = ((9 \<le> code c \<and> code c \<le> 13) \<or> code c = 32 \<or> code c = 160)"

definition trim :: "string \<Rightarrow> string" where
  "trim s = rev (dropWhile isWhiteSpace (rev (dropWhile isWhiteSpace s)))"

definition wikilinkAt :: "string \<Rightarrow> (string \<times> nat) option" where
  \<comment> \<open>\<open>\[\[([^\]]+)\]\]\<close> tried at the head of the string: the capture and the length
      of the match. The class takes every character up to the first \<open>]\<close>; a shorter
      capture would be followed by a character that is not \<open>]\<close>.\<close>
  "wikilinkAt s =
     (if startsWith s ''[['' then
        (let body = takeWhile (\<lambda>c. c \<noteq> CHR '']'') (drop 2 s);
             rest = dropWhile (\<lambda>c. c \<noteq> CHR '']'') (drop 2 s)
         in if body \<noteq> [] \<and> startsWith rest '']]'' then Some (body, length body + 4)
            else None)
      else None)"

fun wikilinkMatches :: "string \<Rightarrow> nat \<Rightarrow> string list" where
  \<comment> \<open>the captures of the \<open>exec\<close> loop over \<open>WIKILINK_PATTERN\<close> with the flag \<open>g\<close>;
      \<open>skip\<close> counts the characters of the last match still to pass\<close>
  "wikilinkMatches [] skip = []"
| "wikilinkMatches (c # s) skip =
     (if 0 < skip then wikilinkMatches s (skip - 1)
      else (case wikilinkAt (c # s) of
              Some (body, n) \<Rightarrow> body # wikilinkMatches s (n - 1)
            | None \<Rightarrow> wikilinkMatches s 0))"

definition addMention :: "int \<Rightarrow> (string, WikiLink) js_map \<Rightarrow> string \<Rightarrow> (string, WikiLink) js_map" where
  \<comment> \<open>the body of the \<open>while\<close> loop\<close>
  "addMention now linksMap capture =
     (let text = trim capture
      in if text = [] then linksMap
         else (case mapGet linksMap text of
                 Some link \<Rightarrow>
                   mapSet linksMap text (link\<lparr>frequency := jsPlus (frequency link) 1\<rparr>)
               | None \<Rightarrow>
                   mapSet linksMap text
                     \<lparr>wl_id = None, linkText = text, linkType = categorizeLink text,
                      frequency = 1, aliases = generateAliases text,
                      firstSeen = now, lastUsed = now\<rparr>))"

definition scanFile :: "int \<Rightarrow> (string, WikiLink) js_map \<Rightarrow> string \<times> fsnode \<Rightarrow> (string, WikiLink) js_map" where
  \<comment> \<open>the body of the \<open>for\<close> loop, without the progress callback: a file that cannot
      be read, or is empty, is passed over\<close>
  "scanFile now linksMap file =
     (case readTextFile (snd file) of
        None \<Rightarrow> linksMap
      | Some content \<Rightarrow>
          if content = [] then linksMap
          else foldl (addMention now) linksMap (wikilinkMatches content 0))"

fun insertAliases :: "database \<Rightarrow> nat \<Rightarrow> string list \<Rightarrow> error option \<times> database" where
  \<comment> \<open>\<open>for (const alias of link.aliases) await insertWikiLinkAlias(id, alias)\<close>; the
      database is returned as the loop leaves it, also when a call throws\<close>
  "insertAliases db ident [] = (None, db)"
| "insertAliases db ident (a # as) =
     (case insertWikiLinkAlias db ident a of
        Inl e \<Rightarrow> (Some e, db)
      | Inr db' \<Rightarrow> insertAliases db' ident as)"

fun bulkUpsert :: "database \<Rightarrow> int \<Rightarrow> WikiLink list \<Rightarrow> error option \<times> database" where
  \<comment> \<open>the loop of \<open>bulkAddLinks\<close>\<close>
  "bulkUpsert db now [] = (None, db)"
| "bulkUpsert db now (link # links) =
     (case upsertWikiLink db now link of
        Inl e \<Rightarrow> (Some e, db)
      | Inr (ident, db') \<Rightarrow>
          (case insertAliases db' ident (aliases link) of
             (Some e, db'') \<Rightarrow> (Some e, db'')
           | (None, db'') \<Rightarrow> bulkUpsert db'' now links))"

definition bulkAddLinks ::
  "service \<Rightarrow> database \<Rightarrow> int \<Rightarrow> WikiLink list \<Rightarrow> error option \<times> service \<times> database" where
  "bulkAddLinks svc db now links =
     (case bulkUpsert db now links of
        (Some e, db') \<Rightarrow> (Some e, svc, db')
      | (None, db') \<Rightarrow> (None, invalidateCache svc, db'))"

definition clearAllLinks :: "service \<Rightarrow> database \<Rightarrow> error option \<times> service \<times> database" where
  "clearAllLinks svc db =
     (case clearWikiLinks db of
        Inl e \<Rightarrow> (Some e, svc, db)
      | Inr db' \<Rightarrow> (None, invalidateCache svc, db'))"

record vault =
  config :: "string option"         \<comment> \<open>\<open>vaultPath\<close> of the configuration, if there is one\<close>
  hasPermission :: bool             \<comment> \<open>what \<open>requestStoragePermissions\<close> answers\<close>
  root :: fsnode                    \<comment> \<open>what the file system holds at \<open>vaultPath\<close>\<close>

definition scanVaultForLinks ::
  "vault \<Rightarrow> service \<Rightarrow> database \<Rightarrow> int \<Rightarrow> nat \<times> service \<times> database" where
  \<comment> \<open>the count returned, and the service and the database as the scan leaves them;
      whatever throws inside the \<open>try\<close> ends the scan with 0\<close>
  "scanVaultForLinks v svc db now =
     (case config v of
        None \<Rightarrow> (0, svc, db)
      | Some vaultPath \<Rightarrow>
          if \<not> hasPermission v then (0, svc, db)
          else
            (let files = getAllMarkdownFiles vaultPath (root v);
                 linksMap = foldl (scanFile now) [] files;
                 links = map snd linksMap
             in case clearAllLinks svc db of
                  (Some e, svc1, db1) \<Rightarrow> (0, svc1, db1)
                | (None, svc1, db1) \<Rightarrow>
                    (case bulkAddLinks svc1 db1 now links of
                       (Some e, svc2, db2) \<Rightarrow> (0, svc2, db2)
                     | (None, svc2, db2) \<Rightarrow> (length links, svc2, db2))))"

section \<open>What the schema keeps\<close>

definition storeInvariant :: "database \<Rightarrow> bool" where
  \<comment> \<open>\<open>id\<close> is the primary key of \<open>wiki_links\<close>, \<open>text\<close> is \<open>UNIQUE\<close>, no key
      exceeds the AUTOINCREMENT counter, and every frequency is a number that the code
      has written\<close>
  "storeInvariant db =
     (distinct (map row_id (wiki_links db)) \<and>
      distinct (map row_text (wiki_links db)) \<and>
      list_all (\<lambda>r. row_id r \<le> wiki_links_seq db) (wiki_links db) \<and>
      list_all (\<lambda>r. isNumber (row_frequency r)) (wiki_links db))"

definition rowsWithText :: "database \<Rightarrow> string \<Rightarrow> WikiLinkRow list" where
  "rowsWithText db t = filter (\<lambda>r. row_text r = t) (wiki_links db)"

definition frequencyOf :: "database \<Rightarrow> string \<Rightarrow> int option" where
  "frequencyOf db t = map_option row_frequency (find (\<lambda>r. row_text r = t) (wiki_links db))"

definition lastUsedOf :: "database \<Rightarrow> string \<Rightarrow> int option" where
  "lastUsedOf db t = map_option last_used (find (\<lambda>r. row_text r = t) (wiki_links db))"

definition notDecremented :: "database \<Rightarrow> database \<Rightarrow> bool" where
  \<comment> \<open>every row of the second database that the first one holds too (by its key) has
      at least the frequency it had\<close>
  "notDecremented db db' =
     list_all (\<lambda>r'. list_all (\<lambda>r. row_id r \<noteq> row_id r' \<or> row_frequency r \<le> row_frequency r')
                               (wiki_links db))
              (wiki_links db')"

definition linkKeys :: "WikiLink \<Rightarrow> string list" where
  \<comment> \<open>the keys under which \<open>loadLinks\<close> stores a link\<close>
  "linkKeys link = toLowerCase (linkText link) # map toLowerCase (aliases link)"

section \<open>Example states\<close>

definition emptyService :: service where
  "emptyService = \<lparr>cache = [], cacheExpiry = 0\<rparr>"

definition nateStore :: database where
  \<comment> \<open>one link, \<open>Nate Stapleton\<close>, seen once, without alias rows yet\<close>
  "nateStore =
     \<lparr>available = True,
      wiki_links =
        [\<lparr>row_id = 1, row_text = ''Nate Stapleton'', row_type = Person,
          row_frequency = 1, first_seen = 10, last_used = 10\<rparr>],
      wiki_link_aliases = [],
      wiki_links_seq = 1,
      wiki_link_aliases_seq = 0\<rparr>"

definition nateLink :: WikiLink where
  "nateLink =
     \<lparr>wl_id = None, linkText = ''Nate Stapleton'', linkType = Person, frequency = 1,
      aliases = [''nate stapleton'', ''nate'', ''stapleton''],
      firstSeen = 20, lastUsed = 20\<rparr>"

definition emptyStore :: database where
  \<comment> \<open>the database after \<open>initializeSchema\<close>\<close>
  "emptyStore =
     \<lparr>available = True, wiki_links = [], wiki_link_aliases = [],
      wiki_links_seq = 0, wiki_link_aliases_seq = 0\<rparr>"

definition limitLink :: WikiLink where
  \<comment> \<open>\<open>nateLink\<close> with the frequency \<open>2^53\<close>\<close>
  "limitLink = nateLink\<lparr>frequency := 2 ^ 53\<rparr>"

definition limitStore :: database where
  \<comment> \<open>\<open>emptyStore\<close> after \<open>limitLink\<close> was added at time 20\<close>
  "limitStore =
     \<lparr>available = True,
      wiki_links =
        [\<lparr>row_id = 1, row_text = ''Nate Stapleton'', row_type = Person,
          row_frequency = 2 ^ 53, first_seen = 20, last_used = 20\<rparr>],
      wiki_link_aliases = [],
      wiki_links_seq = 1,
      wiki_link_aliases_seq = 0\<rparr>"

definition climbingLink :: WikiLink where
  "climbingLink =
     \<lparr>wl_id = None, linkText = ''Climbing'', linkType = Unknown, frequency = 1,
      aliases = [''climbing''], firstSeen = 20, lastUsed = 20\<rparr>"

definition nateOnce :: database where
  \<comment> \<open>\<open>nateStore\<close> with one alias row\<close>
  "nateOnce =
     nateStore\<lparr>wiki_link_aliases := [\<lparr>alias_row_id = 1, link_id = 1, alias_text = ''nate''\<rparr>],
               wiki_link_aliases_seq := 1\<rparr>"

definition nateTwice :: database where
  \<comment> \<open>\<open>nateStore\<close> with the same alias row twice, under two keys\<close>
  "nateTwice =
     nateStore\<lparr>wiki_link_aliases :=
                 [\<lparr>alias_row_id = 1, link_id = 1, alias_text = ''nate''\<rparr>,
                  \<lparr>alias_row_id = 2, link_id = 1, alias_text = ''nate''\<rparr>],
               wiki_link_aliases_seq := 2\<rparr>"

definition downStore :: database where
  \<comment> \<open>\<open>nateStore\<close> when the database cannot be queried\<close>
  "downStore = nateStore\<lparr>available := False\<rparr>"

definition nate1 :: WikiLink where
  "nate1 =
     \<lparr>wl_id = Some 1, linkText = ''Nate'', linkType = Unknown, frequency = 9,
      aliases = [''nate''], firstSeen = 10, lastUsed = 10\<rparr>"

definition nathan2 :: WikiLink where
  "nathan2 =
     \<lparr>wl_id = Some 2, linkText = ''Nathan'', linkType = Unknown, frequency = 5,
      aliases = [''nathan''], firstSeen = 10, lastUsed = 10\<rparr>"

definition stapleton3 :: WikiLink where
  "stapleton3 =
     \<lparr>wl_id = Some 3, linkText = ''Nate Stapleton'', linkType = Person, frequency = 3,
      aliases = [''nate stapleton'', ''nate'', ''stapleton''], firstSeen = 10, lastUsed = 10\<rparr>"

definition archibald4 :: WikiLink where
  "archibald4 =
     \<lparr>wl_id = Some 4, linkText = ''Nate Archibald'', linkType = Person, frequency = 1,
      aliases = [''nate archibald'', ''nate'', ''archibald''], firstSeen = 10, lastUsed = 10\<rparr>"

definition fourStore :: database where
  \<comment> \<open>the four links above as \<open>addLink\<close> stores them, with the aliases that
      \<open>generateAliases\<close> gives each\<close>
  "fourStore =
     \<lparr>available = True,
      wiki_links =
        [\<lparr>row_id = 1, row_text = ''Nate'', row_type = Unknown,
          row_frequency = 9, first_seen = 10, last_used = 10\<rparr>,
         \<lparr>row_id = 2, row_text = ''Nathan'', row_type = Unknown,
          row_frequency = 5, first_seen = 10, last_used = 10\<rparr>,
         \<lparr>row_id = 3, row_text = ''Nate Stapleton'', row_type = Person,
          row_frequency = 3, first_seen = 10, last_used = 10\<rparr>,
         \<lparr>row_id = 4, row_text = ''Nate Archibald'', row_type = Person,
          row_frequency = 1, first_seen = 10, last_used = 10\<rparr>],
      wiki_link_aliases =
        [\<lparr>alias_row_id = 1, link_id = 1, alias_text = ''nate''\<rparr>,
         \<lparr>alias_row_id = 2, link_id = 2, alias_text = ''nathan''\<rparr>,
         \<lparr>alias_row_id = 3, link_id = 3, alias_text = ''nate stapleton''\<rparr>,
         \<lparr>alias_row_id = 4, link_id = 3, alias_text = ''nate''\<rparr>,
         \<lparr>alias_row_id = 5, link_id = 3, alias_text = ''stapleton''\<rparr>,
         \<lparr>alias_row_id = 6, link_id = 4, alias_text = ''nate archibald''\<rparr>,
         \<lparr>alias_row_id = 7, link_id = 4, alias_text = ''nate''\<rparr>,
         \<lparr>alias_row_id = 8, link_id = 4, alias_text = ''archibald''\<rparr>],
      wiki_links_seq = 4,
      wiki_link_aliases_seq = 8\<rparr>"

definition fourCache :: "(string, WikiLink) js_map" where
  \<comment> \<open>the cache that \<open>loadLinks\<close> builds from \<open>fourStore\<close>\<close>
  "fourCache =
     [(''nate'', archibald4), (''nathan'', nathan2), (''nate stapleton'', stapleton3),
      (''stapleton'', stapleton3), (''nate archibald'', archibald4),
      (''archibald'', archibald4)]"

definition plainLink :: "string \<Rightarrow> WikiLink" where
  \<comment> \<open>the link that \<open>addLink\<close> builds for a text, at time 0\<close>
  "plainLink t =
     \<lparr>wl_id = None, linkText = t, linkType = categorizeLink t, frequency = 1,
      aliases = generateAliases t, firstSeen = 0, lastUsed = 0\<rparr>"

definition unreadableVault :: vault where
  \<comment> \<open>a configured vault, with permission, whose root directory cannot be read\<close>
  "unreadableVault = \<lparr>config = Some ''/vault'', hasPermission = True, root = UnreadableDir\<rparr>"

definition johnService :: service where
  \<comment> \<open>a cache, fresh until time 100, that holds \<open>John Nate Smith\<close> under its text
      and its first part, and \<open>Nate\<close>\<close>
  "johnService =
     \<lparr>cache =
        [(''john nate smith'', plainLink ''John Nate Smith''),
         (''john'', plainLink ''John Nate Smith''),
         (''nate'', plainLink ''Nate'')],
      cacheExpiry = 100\<rparr>"

section \<open>Evaluation rules\<close>

lemmas chr_defs =
  code_def isDigit_def isUpper_def isLower_def isWordChar_def isLatinUpper_def
  isLatinLower_def lowerChar_def canonicalize_def char_of_def bit_Suc_0_iff

lemmas cat_defs =
  categorizeLink_def isDatePattern_def dateTail_def isPersonPattern_def capitalizedWord_def
  isPlacePattern_def isConceptPattern_def eq_ci_def endsWith_ci_def

lemmas alias_defs = generateAliases_def uniq_def setInsert_def toLowerCase_def

section \<open>categorizeLink\<close>

text \<open>
  C9. \<open>categorizeLink\<close> reads nothing but its argument, so it is a function of the
  text alone, and the rules are tried in a fixed order in which the first one that
  matches decides: a date before a person, a person before a place, a place before a
  concept, and \<open>Unknown\<close> when none matches. \<open>9.14.25\<close> is a date, \<open>John Smith\<close> a
  person, \<open>Lord\<close> a concept, \<open>Climbing\<close> unknown; \<open>Japan Park\<close> matches both the
  person rule and the place rule and is a person.
\<close>

theorem categorizeLink_first_match:
  "(categorizeLink t = Date \<longleftrightarrow> isDatePattern t) \<and>
   (categorizeLink t = Person \<longleftrightarrow> \<not> isDatePattern t \<and> isPersonPattern t) \<and>
   (categorizeLink t = Place \<longleftrightarrow>
      \<not> isDatePattern t \<and> \<not> isPersonPattern t \<and> isPlacePattern t) \<and>
   (categorizeLink t = Concept \<longleftrightarrow>
      \<not> isDatePattern t \<and> \<not> isPersonPattern t \<and> \<not> isPlacePattern t \<and>
      isConceptPattern t) \<and>
   (categorizeLink t = Unknown \<longleftrightarrow>
      \<not> isDatePattern t \<and> \<not> isPersonPattern t \<and> \<not> isPlacePattern t \<and>
      \<not> isConceptPattern t) \<and>
   categorizeLink ''9.14.25'' = Date \<and>
   categorizeLink ''John Smith'' = Person \<and>
   categorizeLink ''Lord'' = Concept \<and>
   categorizeLink ''Climbing'' = Unknown \<and>
   isPersonPattern ''Japan Park'' \<and> isPlacePattern ''Japan Park'' \<and>
   categorizeLink ''Japan Park'' = Person"
proof (intro conjI)
  show "categorizeLink ''9.14.25'' = Date" by (simp add: cat_defs chr_defs)
  show "categorizeLink ''John Smith'' = Person" by (simp add: cat_defs chr_defs)
  show "categorizeLink ''Lord'' = Concept" by (simp add: cat_defs chr_defs)
  show "categorizeLink ''Climbing'' = Unknown" by (simp add: cat_defs chr_defs)
  show "isPersonPattern ''Japan Park''" by (simp add: cat_defs chr_defs)
  show "isPlacePattern ''Japan Park''" by (simp add: cat_defs chr_defs)
  show "categorizeLink ''Japan Park'' = Person" by (simp add: cat_defs chr_defs)
qed (simp_all add: categorizeLink_def)

section \<open>generateAliases\<close>

lemma set_foldl_setInsert: "set (foldl setInsert acc xs) = set acc \<union> set xs"
  by (induction xs arbitrary: acc) (auto simp: setInsert_def)

lemma set_uniq: "set (uniq xs) = set xs"
  by (simp add: uniq_def set_foldl_setInsert)

lemma str_includes_char: "str_includes s [c] = (c \<in> set s)"
  by (induction s) auto

lemma splitOn_not_Nil: "splitOn c s \<noteq> []"
  by (induction s) (auto split: list.splits)

lemma length_splitOn: "length (splitOn c s) = Suc (count_list s c)"
  by (induction s) (auto split: list.splits simp: splitOn_not_Nil)

lemma count_list_zero: "count_list s c = 0 \<longleftrightarrow> c \<notin> set s"
  by (induction s) auto

text \<open>
  C6, as the code has it. The parts of a text are what \<open>split(' ')\<close> gives, one more
  than the text has spaces. The aliases always hold the text in lower case. A text
  without a space has no other alias. A text with a space has its first part in lower
  case as well, however many parts there are; the second part in lower case is an
  alias only when there are exactly two parts. So a text of more than two parts has
  two aliases, the whole text and its first part.
\<close>

theorem generateAliases_parts:
  "length (splitOn CHR '' '' t) = count_list t CHR '' '' + 1 \<and>
   toLowerCase t \<in> set (generateAliases t) \<and>
   (length (splitOn CHR '' '' t) = 1 \<longrightarrow> set (generateAliases t) = {toLowerCase t}) \<and>
   (length (splitOn CHR '' '' t) = 2 \<longrightarrow>
      set (generateAliases t) =
        {toLowerCase t, toLowerCase (splitOn CHR '' '' t ! 0),
         toLowerCase (splitOn CHR '' '' t ! 1)}) \<and>
   (2 < length (splitOn CHR '' '' t) \<longrightarrow>
      set (generateAliases t) = {toLowerCase t, toLowerCase (splitOn CHR '' '' t ! 0)})"
proof -
  let ?parts = "splitOn CHR '' '' t"
  have inc: "str_includes t '' '' = (1 < length ?parts)"
    using count_list_zero [of t "CHR '' ''"]
    by (auto simp add: str_includes_char length_splitOn)
  obtain p ps where parts: "?parts = p # ps"
    using splitOn_not_Nil [of "CHR '' ''" t] by (cases ?parts) auto
  have "length ?parts = count_list t CHR '' '' + 1"
    by (simp add: length_splitOn)
  moreover have "toLowerCase t \<in> set (generateAliases t)"
    unfolding generateAliases_def Let_def set_uniq by simp
  moreover have "length ?parts = 1 \<longrightarrow> set (generateAliases t) = {toLowerCase t}"
    unfolding generateAliases_def Let_def set_uniq inc by simp
  moreover have "length ?parts = 2 \<longrightarrow>
      set (generateAliases t) = {toLowerCase t, toLowerCase (?parts ! 0), toLowerCase (?parts ! 1)}"
    unfolding generateAliases_def Let_def set_uniq inc by (auto simp: parts)
  moreover have "2 < length ?parts \<longrightarrow>
      set (generateAliases t) = {toLowerCase t, toLowerCase (?parts ! 0)}"
    unfolding generateAliases_def Let_def set_uniq inc by (auto simp: parts)
  ultimately show ?thesis by blast
qed

theorem generateAliases_parts_witness:
  "length (splitOn CHR '' '' ''Climbing'') = 1 \<and>
   set (generateAliases ''Climbing'') = {''climbing''} \<and>
   length (splitOn CHR '' '' ''Nate Stapleton'') = 2 \<and>
   set (generateAliases ''Nate Stapleton'') = {''nate stapleton'', ''nate'', ''stapleton''} \<and>
   2 < length (splitOn CHR '' '' ''Mary Ann Smith'') \<and>
   set (generateAliases ''Mary Ann Smith'') = {''mary ann smith'', ''mary''}"
proof -
  have p1: "splitOn CHR '' '' ''Climbing'' = [''Climbing'']" by simp
  have p2: "splitOn CHR '' '' ''Nate Stapleton'' = [''Nate'', ''Stapleton'']" by simp
  have p3: "splitOn CHR '' '' ''Mary Ann Smith'' = [''Mary'', ''Ann'', ''Smith'']" by simp
  have t1: "toLowerCase ''Climbing'' = ''climbing''"
    by (simp add: toLowerCase_def chr_defs)
  have t2: "toLowerCase ''Nate Stapleton'' = ''nate stapleton''"
    "toLowerCase ''Nate'' = ''nate''" "toLowerCase ''Stapleton'' = ''stapleton''"
    by (simp_all add: toLowerCase_def chr_defs)
  have t3: "toLowerCase ''Mary Ann Smith'' = ''mary ann smith''"
    "toLowerCase ''Mary'' = ''mary''"
    by (simp_all add: toLowerCase_def chr_defs)
  have a: "set (generateAliases ''Climbing'') = {''climbing''}"
    using generateAliases_parts [of "''Climbing''"] unfolding p1 t1 by simp
  have b: "set (generateAliases ''Nate Stapleton'') = {''nate stapleton'', ''nate'', ''stapleton''}"
    using generateAliases_parts [of "''Nate Stapleton''"] unfolding p2 t2 by (simp add: t2)
  have c: "set (generateAliases ''Mary Ann Smith'') = {''mary ann smith'', ''mary''}"
    using generateAliases_parts [of "''Mary Ann Smith''"] unfolding p3 t3 by (simp add: t3)
  show ?thesis unfolding p1 p2 p3 using a b c by simp
qed

text \<open>
  The text \<open>Mary Ann Smith\<close> has three parts, and its aliases hold \<open>mary\<close> beside the
  whole text.
\<close>

theorem generateAliases_three_parts_counterexample:
  "length (splitOn CHR '' '' ''Mary Ann Smith'') = 3 \<and>
   ''mary'' \<in> set (generateAliases ''Mary Ann Smith'') \<and>
   set (generateAliases ''Mary Ann Smith'') \<noteq> {toLowerCase ''Mary Ann Smith''}"
proof -
  have "generateAliases ''Mary Ann Smith'' = [''mary ann smith'', ''mary'']"
    by (simp add: alias_defs chr_defs)
  moreover have "toLowerCase ''Mary Ann Smith'' = ''mary ann smith''"
    by (simp add: toLowerCase_def chr_defs)
  ultimately show ?thesis by simp
qed

section \<open>Numbers\<close>

lemma ulpNat_small: "m < 2 ^ 53 \<Longrightarrow> ulpNat m = 1"
  by (simp add: ulpNat.simps)

lemma ulpNat_large: "\<not> m < 2 ^ 53 \<Longrightarrow> ulpNat m = 2 * ulpNat (m div 2)"
  by (subst ulpNat.simps) simp

lemma ulpNat_pos: "0 < ulpNat m"
  by (induction m rule: ulpNat.induct) (subst ulpNat.simps, simp)

lemma ulpNat_mono_dvd: "a \<le> b \<Longrightarrow> ulpNat a dvd ulpNat b"
proof (induction b arbitrary: a rule: ulpNat.induct)
  case (1 b)
  show ?case
  proof (cases "a < 2 ^ 53")
    case True
    then show ?thesis by (simp add: ulpNat_small)
  next
    case False
    then have b: "\<not> b < 2 ^ 53" using "1.prems" by simp
    have "a div 2 \<le> b div 2" using "1.prems" by (simp add: div_le_mono)
    then have "ulpNat (a div 2) dvd ulpNat (b div 2)" using "1.IH" b by simp
    then show ?thesis by (simp add: ulpNat_large [OF False] ulpNat_large [OF b])
  qed
qed

lemma ulpNat_upper: "m < ulpNat m * 2 ^ 53"
proof (induction m rule: ulpNat.induct)
  case (1 m)
  show ?case
  proof (cases "m < 2 ^ 53")
    case True
    then show ?thesis by (simp add: ulpNat_small)
  next
    case False
    then have "m div 2 < ulpNat (m div 2) * 2 ^ 53" using 1 by simp
    then have "m < 2 * (ulpNat (m div 2) * 2 ^ 53)" by linarith
    then show ?thesis by (simp add: ulpNat_large [OF False])
  qed
qed

lemma ulpNat_lower: "\<not> m < 2 ^ 53 \<Longrightarrow> ulpNat m * 2 ^ 52 \<le> m"
proof (induction m rule: ulpNat.induct)
  case (1 m)
  show ?case
  proof (cases "m div 2 < 2 ^ 53")
    case True
    then have "ulpNat m = 2" by (simp add: ulpNat_large [OF "1.prems"] ulpNat_small)
    then show ?thesis using "1.prems" by simp
  next
    case False
    then have "ulpNat (m div 2) * 2 ^ 52 \<le> m div 2" using 1 by simp
    then have "2 * (ulpNat (m div 2) * 2 ^ 52) \<le> m" by linarith
    then show ?thesis by (simp add: ulpNat_large [OF "1.prems"])
  qed
qed

lemma ulpNat_power: "\<exists>e. ulpNat m = 2 ^ e"
proof (induction m rule: ulpNat.induct)
  case (1 m)
  show ?case
  proof (cases "m < 2 ^ 53")
    case True
    then have "ulpNat m = 2 ^ 0" by (simp add: ulpNat_small)
    then show ?thesis by blast
  next
    case False
    then obtain e where "ulpNat (m div 2) = 2 ^ e" using 1 by blast
    then have "ulpNat m = 2 ^ Suc e" by (simp add: ulpNat_large [OF False])
    then show ?thesis by blast
  qed
qed

lemma ulpNat_binade:
  assumes "2 ^ 52 \<le> j" and "j < 2 ^ 53"
  shows "ulpNat (j * 2 ^ e) = 2 ^ e"
proof (induction e)
  case 0
  then show ?case using assms by (simp add: ulpNat_small)
next
  case (Suc e)
  have big: "\<not> j * 2 ^ Suc e < 2 ^ 53"
  proof -
    have "(2::nat) ^ 52 * 2 \<le> j * 2 ^ Suc e"
      using assms(1) by (intro mult_le_mono) simp_all
    then show ?thesis by simp
  qed
  have half: "(j * 2 ^ Suc e) div 2 = j * 2 ^ e" by simp
  have "ulpNat (j * 2 ^ Suc e) = 2 * ulpNat ((j * 2 ^ Suc e) div 2)"
    by (rule ulpNat_large [OF big])
  also have "\<dots> = 2 * 2 ^ e" by (simp only: half Suc)
  finally show ?case by simp
qed

lemma roundTo_dvd: "u dvd m \<Longrightarrow> 0 < u \<Longrightarrow> roundTo u m = m"
  by (auto simp: roundTo_def Let_def)

lemma roundTo_multiple: "u dvd roundTo u m"
  by (simp add: roundTo_def Let_def)

lemma roundTo_cases: "roundTo u m = (m div u) * u \<or> roundTo u m = (m div u + 1) * u"
  by (simp add: roundTo_def Let_def)

lemma roundNat_fixed_iff: "roundNat m = m \<longleftrightarrow> ulpNat m dvd m"
proof
  assume "roundNat m = m"
  then show "ulpNat m dvd m" using roundTo_multiple [of "ulpNat m" m] by (simp add: roundNat_def)
next
  assume "ulpNat m dvd m"
  then show "roundNat m = m" by (simp add: roundNat_def roundTo_dvd ulpNat_pos)
qed

lemma roundNat_exact: "m \<le> 2 ^ 53 \<Longrightarrow> roundNat m = m"
proof (cases "m < 2 ^ 53")
  case True
  then show ?thesis by (simp add: roundNat_fixed_iff ulpNat_small)
next
  case False
  assume "m \<le> 2 ^ 53"
  then have m: "m = 2 ^ 53" using False by simp
  have "m div 2 < 2 ^ 53" using m by simp
  then have "ulpNat (m div 2) = 1" by (rule ulpNat_small)
  then have "ulpNat m = 2" using ulpNat_large [OF False] by simp
  moreover have "even m" using m by simp
  ultimately show ?thesis by (simp add: roundNat_fixed_iff)
qed

lemma ulpNat_step: "ulpNat (Suc m) dvd Suc m \<or> ulpNat (Suc m) = ulpNat m"
proof (induction m rule: ulpNat.induct)
  case (1 m)
  show ?case
  proof (cases "Suc m < 2 ^ 53")
    case True
    then show ?thesis by (simp add: ulpNat_small)
  next
    case big: False
    show ?thesis
    proof (cases "m < 2 ^ 53")
      case True
      then have "Suc m = 2 ^ 53" using big by simp
      then show ?thesis using roundNat_exact [of "Suc m"] by (simp add: roundNat_fixed_iff)
    next
      case False
      show ?thesis
      proof (cases "even m")
        case True
        then have "Suc m div 2 = m div 2" by simp
        then show ?thesis by (simp add: ulpNat_large [OF big] ulpNat_large [OF False])
      next
        case False
        then have h: "Suc m div 2 = Suc (m div 2)" and e: "Suc m = 2 * Suc (m div 2)"
          by (auto elim: oddE)
        from "1.IH" \<open>\<not> m < 2 ^ 53\<close>
        have "ulpNat (Suc (m div 2)) dvd Suc (m div 2) \<or> ulpNat (Suc (m div 2)) = ulpNat (m div 2)"
          by simp
        then show ?thesis
        proof
          assume "ulpNat (Suc (m div 2)) dvd Suc (m div 2)"
          then have "2 * ulpNat (Suc (m div 2)) dvd 2 * Suc (m div 2)"
            by (rule mult_dvd_mono [OF dvd_refl])
          moreover have "ulpNat (Suc m) = 2 * ulpNat (Suc (m div 2))"
            using ulpNat_large [OF big] by (simp only: h)
          ultimately have "ulpNat (Suc m) dvd Suc m" using e by metis
          then show ?thesis by (rule disjI1)
        next
          assume "ulpNat (Suc (m div 2)) = ulpNat (m div 2)"
          moreover have "ulpNat (Suc m) = 2 * ulpNat (Suc (m div 2))"
            using ulpNat_large [OF big] by (simp only: h)
          moreover have "ulpNat m = 2 * ulpNat (m div 2)"
            by (rule ulpNat_large [OF \<open>\<not> m < 2 ^ 53\<close>])
          ultimately have "ulpNat (Suc m) = ulpNat m" by simp
          then show ?thesis by (rule disjI2)
        qed
      qed
    qed
  qed
qed

lemma roundTo_succ: "0 < u \<Longrightarrow> u dvd p \<Longrightarrow> p \<le> roundTo u (Suc p)"
proof -
  assume u: "0 < u" and d: "u dvd p"
  then obtain k where p: "p = u * k" by (auto elim: dvdE)
  show ?thesis
  proof (cases "u = 1")
    case True
    then show ?thesis by (simp add: roundTo_def)
  next
    case False
    then have u2: "2 \<le> u" using u by simp
    have "Suc p = 1 + k * u" by (simp add: p)
    moreover have "(1 + k * u) div u = k + 1 div u"
      using u by (intro div_mult_self1) simp
    ultimately have q: "Suc p div u = k" using u2 by simp
    from roundTo_cases [of u "Suc p"] have "k * u \<le> roundTo u (Suc p)"
      unfolding q by auto
    then show ?thesis by (simp add: p mult.commute)
  qed
qed

lemma roundTo_pred: "0 < u \<Longrightarrow> u dvd p \<Longrightarrow> 0 < p \<Longrightarrow> roundTo u (p - 1) \<le> p"
proof -
  assume u: "0 < u" and d: "u dvd p" and pos: "0 < p"
  then obtain k where p: "p = u * k" by (auto elim: dvdE)
  have k: "0 < k" using pos p by (cases k) auto
  have "(p - 1) div u < k"
    using u k by (simp add: p div_less_iff_less_mult mult.commute)
  then have up: "((p - 1) div u + 1) * u \<le> k * u" by (intro mult_le_mono1) simp
  have down: "((p - 1) div u) * u \<le> ((p - 1) div u + 1) * u" by simp
  from roundTo_cases [of u "p - 1"] have "roundTo u (p - 1) \<le> k * u"
  proof
    assume "roundTo u (p - 1) = (p - 1) div u * u"
    then show ?thesis using up down by linarith
  next
    assume "roundTo u (p - 1) = ((p - 1) div u + 1) * u"
    then show ?thesis using up by linarith
  qed
  then show ?thesis by (simp add: p mult.commute)
qed

lemma roundNat_succ: "roundNat p = p \<Longrightarrow> p \<le> roundNat (Suc p)"
proof -
  assume "roundNat p = p"
  then have d: "ulpNat p dvd p" by (simp add: roundNat_fixed_iff)
  from ulpNat_step [of p] show ?thesis
  proof
    assume "ulpNat (Suc p) dvd Suc p"
    then show ?thesis by (simp add: roundNat_def roundTo_dvd ulpNat_pos)
  next
    assume "ulpNat (Suc p) = ulpNat p"
    then show ?thesis using roundTo_succ [OF ulpNat_pos d] by (simp add: roundNat_def)
  qed
qed

lemma roundNat_pred: "roundNat p = p \<Longrightarrow> 0 < p \<Longrightarrow> roundNat (p - 1) \<le> p"
proof -
  assume "roundNat p = p" and pos: "0 < p"
  then have d: "ulpNat p dvd p" by (simp add: roundNat_fixed_iff)
  have "ulpNat (p - 1) dvd ulpNat p" by (rule ulpNat_mono_dvd) simp
  then have "ulpNat (p - 1) dvd p" using d by (rule dvd_trans)
  then show ?thesis using roundTo_pred [OF ulpNat_pos _ pos] by (simp add: roundNat_def)
qed

lemma roundNat_idem: "roundNat (roundNat m) = roundNat m"
proof (cases "m < 2 ^ 53")
  case True
  then show ?thesis by (simp add: roundNat_exact)
next
  case False
  obtain e where e: "ulpNat m = 2 ^ e" using ulpNat_power by blast
  let ?q = "m div 2 ^ e"
  have lo: "2 ^ 52 \<le> ?q"
  proof -
    have "2 ^ 52 * 2 ^ e \<le> m" using ulpNat_lower [OF False] by (simp add: e mult.commute)
    then show ?thesis by (simp add: less_eq_div_iff_mult_less_eq)
  qed
  have hi: "?q < 2 ^ 53"
    using ulpNat_upper [of m] by (simp add: e div_less_iff_less_mult mult.commute)
  have fixed: "\<And>j. 2 ^ 52 \<le> j \<Longrightarrow> j \<le> 2 ^ 53 \<Longrightarrow> roundNat (j * 2 ^ e) = j * 2 ^ e"
  proof -
    fix j :: nat assume j: "2 ^ 52 \<le> j" "j \<le> 2 ^ 53"
    show "roundNat (j * 2 ^ e) = j * 2 ^ e"
    proof (cases "j < 2 ^ 53")
      case True
      then show ?thesis using ulpNat_binade [OF j(1) True, of e] by (simp add: roundNat_fixed_iff)
    next
      case False
      then have "j * 2 ^ e = 2 ^ 52 * 2 ^ Suc e" using j by simp
      moreover have "ulpNat (2 ^ 52 * 2 ^ Suc e) = 2 ^ Suc e"
        by (rule ulpNat_binade) simp_all
      ultimately show ?thesis by (simp add: roundNat_fixed_iff)
    qed
  qed
  from roundTo_cases [of "2 ^ e" m]
  have "roundNat m = ?q * 2 ^ e \<or> roundNat m = (?q + 1) * 2 ^ e"
    by (simp add: roundNat_def e)
  then show ?thesis
  proof
    assume "roundNat m = ?q * 2 ^ e"
    then show ?thesis using fixed [of ?q] lo hi by simp
  next
    assume "roundNat m = (?q + 1) * 2 ^ e"
    then show ?thesis using fixed [of "?q + 1"] lo hi by simp
  qed
qed

lemma roundNat_zero: "roundNat 0 = 0"
  by (rule roundNat_exact) simp

lemma isNumber_toNumber: "isNumber (toNumber n)"
  by (auto simp: isNumber_def toNumber_def roundNat_idem roundNat_zero)

lemma toNumber_exact: "- (2 ^ 53) \<le> n \<Longrightarrow> n \<le> 2 ^ 53 \<Longrightarrow> toNumber n = n"
  by (auto simp: toNumber_def roundNat_exact nat_le_iff)

lemma jsPlus_exact:
  "- (2 ^ 53) \<le> f \<Longrightarrow> f < 2 ^ 53 \<Longrightarrow> jsPlus f 1 = f + 1"
  by (simp add: jsPlus_def toNumber_exact)

lemma jsPlus_not_less: "isNumber f \<Longrightarrow> f \<le> jsPlus f 1"
proof (cases "f < 0")
  case False
  assume "isNumber f"
  then have fx: "roundNat (nat f) = nat f" using False by (simp add: isNumber_def toNumber_def)
  have "nat (f + 1) = Suc (nat f)" using False by simp
  then have "jsPlus f 1 = int (roundNat (Suc (nat f)))" using False by (simp add: jsPlus_def toNumber_def)
  then show ?thesis using roundNat_succ [OF fx] False by simp
next
  case True
  assume "isNumber f"
  then have fx: "roundNat (nat (- f)) = nat (- f)" using True by (simp add: isNumber_def toNumber_def)
  show ?thesis
  proof (cases "f + 1 < 0")
    case False
    then have "f = - 1" using True by simp
    then show ?thesis by (simp add: jsPlus_def toNumber_exact)
  next
    case neg: True
    have "nat (- (f + 1)) = nat (- f) - 1" by simp
    then have "jsPlus f 1 = - int (roundNat (nat (- f) - 1))" using neg by (simp add: jsPlus_def toNumber_def)
    then show ?thesis using roundNat_pred [OF fx] True by simp
  qed
qed

lemma jsPlus_at_limit: "jsPlus (2 ^ 53) 1 = 2 ^ 53"
proof -
  have "ulpNat 4503599627370496 = 1" by (rule ulpNat_small) simp
  then have u: "ulpNat 9007199254740993 = 2"
    by (subst ulpNat.simps) simp
  have "roundNat 9007199254740993 = 9007199254740992"
    by (simp add: roundNat_def u roundTo_def)
  then show ?thesis by (simp add: jsPlus_def toNumber_def)
qed

lemma isNumber_small: "- (2 ^ 53) \<le> n \<Longrightarrow> n \<le> 2 ^ 53 \<Longrightarrow> isNumber n"
  by (simp add: isNumber_def toNumber_exact)

section \<open>upsertWikiLink and insertWikiLinkAlias\<close>

lemmas store_defs =
  upsertWikiLink_def insertWikiLinkAlias_def uniqueConflict_def clearWikiLinks_def
  storeInvariant_def rowsWithText_def frequencyOf_def lastUsedOf_def notDecremented_def

lemma find_text_map:
  assumes "\<And>r. row_text (f r) = row_text r"
  shows "find (\<lambda>r. row_text r = t) (map f rows) = map_option f (find (\<lambda>r. row_text r = t) rows)"
  using assms by (induction rows) auto

lemma find_append_rows:
  "find P (xs @ ys) = (case find P xs of Some x \<Rightarrow> Some x | None \<Rightarrow> find P ys)"
  by (induction xs) auto

lemma find_in_set: "find P xs = Some x \<Longrightarrow> x \<in> set xs \<and> P x"
  by (induction xs) (auto split: if_splits)

lemma find_None_filter: "find P xs = None \<Longrightarrow> filter P xs = []"
  by (induction xs) (auto split: if_splits)

lemma distinct_text_filter:
  "distinct (map row_text rows) \<Longrightarrow> r \<in> set rows \<Longrightarrow>
   filter (\<lambda>x. row_text x = row_text r) rows = [r]"
proof (induction rows)
  case Nil
  then show ?case by simp
next
  case (Cons a rows)
  show ?case
  proof (cases "a = r")
    case True
    have "filter (\<lambda>x. row_text x = row_text r) rows = []"
      using Cons.prems(1) True by (auto simp: filter_empty_conv image_iff)
    then show ?thesis using True by simp
  next
    case False
    then have r: "r \<in> set rows" using Cons.prems(2) by simp
    then have "row_text a \<noteq> row_text r" using Cons.prems(1) by force
    then show ?thesis using Cons.IH Cons.prems(1) r by simp
  qed
qed

lemma distinct_id_eq:
  "distinct (map row_id rows) \<Longrightarrow> r \<in> set rows \<Longrightarrow> x \<in> set rows \<Longrightarrow>
   row_id r = row_id x \<Longrightarrow> r = x"
  by (meson distinct_map inj_onD)

lemma filter_text_map:
  assumes "\<And>r. row_text (f r) = row_text r"
  shows "filter (\<lambda>r. row_text r = t) (map f rows) = map f (filter (\<lambda>r. row_text r = t) rows)"
  using assms by (induction rows) auto

text \<open>The update of \<open>upsertWikiLink\<close>, as a function on rows.\<close>

lemma upsert_existing:
  assumes inv: "storeInvariant db" and av: "available db"
    and ex: "find (\<lambda>r. row_text r = linkText link) (wiki_links db) = Some e"
  shows "\<exists>db'. upsertWikiLink db now link = Inr (row_id e, db') \<and>
           storeInvariant db' \<and>
           length (wiki_links db') = length (wiki_links db) \<and>
           length (rowsWithText db' (linkText link)) = 1 \<and>
           frequencyOf db' (linkText link) = Some (jsPlus (row_frequency e) 1) \<and>
           lastUsedOf db' (linkText link) = Some now \<and>
           (\<forall>t. t \<noteq> linkText link \<longrightarrow> frequencyOf db' t = frequencyOf db t) \<and>
           wiki_link_aliases db' = wiki_link_aliases db \<and>
           notDecremented db db'"
proof -
  define upd :: "WikiLinkRow \<Rightarrow> WikiLinkRow" where "upd = (\<lambda>r. if row_id r = row_id e
                                then r\<lparr>row_frequency := jsPlus (row_frequency e) 1,
                                       last_used := now,
                                       row_type := linkType link\<rparr>
                                else r)"
  define db' where "db' = db\<lparr>wiki_links := map upd (wiki_links db)\<rparr>"
  have e_in: "e \<in> set (wiki_links db)" and e_text: "row_text e = linkText link"
    using find_in_set [OF ex] by auto
  have up: "upsertWikiLink db now link = Inr (row_id e, db')"
    using av ex by (simp add: upsertWikiLink_def db'_def upd_def)
  have upd_text: "\<And>r. row_text (upd r) = row_text r" by (simp add: upd_def)
  have upd_id: "\<And>r. row_id (upd r) = row_id r" by (simp add: upd_def)
  have ids: "map row_id (map upd (wiki_links db)) = map row_id (wiki_links db)"
    by (simp add: upd_id)
  have texts: "map row_text (map upd (wiki_links db)) = map row_text (wiki_links db)"
    by (simp add: upd_text)
  have e_num: "isNumber (row_frequency e)"
    using inv e_in by (simp add: storeInvariant_def list_all_iff)
  have upd_num: "\<And>r. isNumber (row_frequency r) \<Longrightarrow> isNumber (row_frequency (upd r))"
    by (simp add: upd_def jsPlus_def isNumber_toNumber)
  have inv': "storeInvariant db'"
    using inv upd_num
    by (simp add: storeInvariant_def db'_def ids texts list_all_iff upd_id del: map_map)
  have upd_other: "\<And>r. r \<in> set (wiki_links db) \<Longrightarrow> row_text r \<noteq> linkText link \<Longrightarrow> upd r = r"
  proof -
    fix r assume r: "r \<in> set (wiki_links db)" and ne: "row_text r \<noteq> linkText link"
    have "row_id r \<noteq> row_id e"
      using distinct_id_eq [of "wiki_links db" r e] inv r e_in ne e_text
      by (auto simp: storeInvariant_def)
    then show "upd r = r" by (simp add: upd_def)
  qed
  have one: "length (rowsWithText db' (linkText link)) = 1"
  proof -
    have "filter (\<lambda>x. row_text x = row_text e) (wiki_links db) = [e]"
      using distinct_text_filter [of "wiki_links db" e] inv e_in by (simp add: storeInvariant_def)
    then show ?thesis
      by (simp add: rowsWithText_def db'_def filter_text_map [OF upd_text] e_text)
  qed
  have fnd: "find (\<lambda>r. row_text r = linkText link) (wiki_links db') = Some (upd e)"
    by (simp add: db'_def find_text_map [OF upd_text] ex)
  have freq: "frequencyOf db' (linkText link) = Some (jsPlus (row_frequency e) 1)"
    by (simp add: frequencyOf_def fnd) (simp add: upd_def)
  have lu: "lastUsedOf db' (linkText link) = Some now"
    by (simp add: lastUsedOf_def fnd) (simp add: upd_def)
  have others: "\<forall>t. t \<noteq> linkText link \<longrightarrow> frequencyOf db' t = frequencyOf db t"
  proof (intro allI impI)
    fix t assume ne: "t \<noteq> linkText link"
    show "frequencyOf db' t = frequencyOf db t"
    proof (cases "find (\<lambda>r. row_text r = t) (wiki_links db)")
      case None
      then show ?thesis by (simp add: frequencyOf_def db'_def find_text_map [OF upd_text])
    next
      case (Some r)
      then have "r \<in> set (wiki_links db)" "row_text r = t" using find_in_set by force+
      then have "upd r = r" using upd_other ne by simp
      then show ?thesis using Some by (simp add: frequencyOf_def db'_def find_text_map [OF upd_text])
    qed
  qed
  have nd: "notDecremented db db'"
  proof -
    have "\<And>r x. r \<in> set (wiki_links db) \<Longrightarrow> x \<in> set (wiki_links db) \<Longrightarrow>
            row_id r = row_id (upd x) \<Longrightarrow> row_frequency r \<le> row_frequency (upd x)"
    proof -
      fix r x assume r: "r \<in> set (wiki_links db)" and x: "x \<in> set (wiki_links db)"
        and eq: "row_id r = row_id (upd x)"
      have rx: "r = x"
        using distinct_id_eq [of "wiki_links db" r x] inv r x eq
        by (simp add: storeInvariant_def upd_id)
      show "row_frequency r \<le> row_frequency (upd x)"
      proof (cases "row_id x = row_id e")
        case True
        then have "x = e"
          using distinct_id_eq [of "wiki_links db" x e] inv x e_in by (simp add: storeInvariant_def)
        then show ?thesis using rx jsPlus_not_less [OF e_num] by (simp add: upd_def)
      next
        case False
        then show ?thesis using rx by (simp add: upd_def)
      qed
    qed
    then show ?thesis
      by (auto simp: notDecremented_def db'_def list_all_iff)
  qed
  show ?thesis
    using up inv' one freq lu others nd by (intro exI [of _ db']) (simp add: db'_def)
qed

lemma upsert_new:
  assumes inv: "storeInvariant db" and av: "available db"
    and num: "isNumber (frequency link)"
    and ex: "find (\<lambda>r. row_text r = linkText link) (wiki_links db) = None"
  shows "\<exists>db'. upsertWikiLink db now link = Inr (wiki_links_seq db + 1, db') \<and>
           storeInvariant db' \<and>
           length (wiki_links db') = length (wiki_links db) + 1 \<and>
           length (rowsWithText db' (linkText link)) = 1 \<and>
           frequencyOf db' (linkText link) = Some (frequency link) \<and>
           (\<forall>t. t \<noteq> linkText link \<longrightarrow> frequencyOf db' t = frequencyOf db t) \<and>
           wiki_link_aliases db' = wiki_link_aliases db \<and>
           notDecremented db db'"
proof -
  define new where "new = \<lparr>row_id = wiki_links_seq db + 1, row_text = linkText link,
                           row_type = linkType link, row_frequency = frequency link,
                           first_seen = firstSeen link, last_used = lastUsed link\<rparr>"
  define db' where "db' = db\<lparr>wiki_links := wiki_links db @ [new],
                             wiki_links_seq := wiki_links_seq db + 1\<rparr>"
  have up: "upsertWikiLink db now link = Inr (wiki_links_seq db + 1, db')"
    using av ex by (simp add: upsertWikiLink_def db'_def new_def Let_def)
  have no_text: "linkText link \<notin> row_text ` set (wiki_links db)"
    using ex by (auto simp: find_None_iff)
  have small: "\<And>r. r \<in> set (wiki_links db) \<Longrightarrow> row_id r \<le> wiki_links_seq db"
    using inv by (simp add: storeInvariant_def list_all_iff)
  have fresh: "wiki_links_seq db + 1 \<notin> row_id ` set (wiki_links db)"
    using small by fastforce
  have inv': "storeInvariant db'"
    using inv no_text fresh small num
    by (auto simp: storeInvariant_def db'_def new_def list_all_iff le_SucI)
  have one: "length (rowsWithText db' (linkText link)) = 1"
    using find_None_filter [OF ex] by (simp add: rowsWithText_def db'_def new_def)
  have freq: "frequencyOf db' (linkText link) = Some (frequency link)"
    by (simp add: frequencyOf_def db'_def find_append_rows ex new_def)
  have others: "\<forall>t. t \<noteq> linkText link \<longrightarrow> frequencyOf db' t = frequencyOf db t"
    by (auto simp: frequencyOf_def db'_def find_append_rows new_def split: option.splits)
  have nd: "notDecremented db db'"
  proof -
    have "\<And>r x. r \<in> set (wiki_links db) \<Longrightarrow> x \<in> set (wiki_links db) \<Longrightarrow>
            row_id r = row_id x \<Longrightarrow> row_frequency r \<le> row_frequency x"
      using distinct_id_eq [of "wiki_links db"] inv by (auto simp: storeInvariant_def)
    moreover have "\<And>r. r \<in> set (wiki_links db) \<Longrightarrow> row_id r \<noteq> row_id new"
      using fresh by (auto simp: new_def image_iff)
    ultimately show ?thesis
      by (auto simp: notDecremented_def db'_def list_all_iff)
  qed
  show ?thesis
    using up inv' one freq others nd by (intro exI [of _ db']) (simp add: db'_def)
qed

lemma notDecremented_same_rows:
  "distinct (map row_id (wiki_links db)) \<Longrightarrow> wiki_links db' = wiki_links db \<Longrightarrow>
   notDecremented db db'"
  using distinct_id_eq [of "wiki_links db"]
  by (auto simp: notDecremented_def list_all_iff)

text \<open>
  C7, as the code has it. On an available store that satisfies the constraints of
  its schema, \<open>upsertWikiLink\<close> of a link whose frequency is a whole number succeeds
  and leaves exactly one row with the link's text. When a row with that text was
  there, the number of rows is the same, its \<open>last_used\<close> is the time of the call, and
  its frequency is what \<open>frequency + 1\<close> gives on a JavaScript number: one more than it
  was as long as it lies from \<open>-2^53\<close> up to \<open>2^53 - 1\<close>, and never less than it was.
  When there was no such row, one row is added, with the frequency the link brings.
  The frequency of every other text is as it was. Neither \<open>upsertWikiLink\<close> nor
  \<open>insertWikiLinkAlias\<close> nor \<open>clearWikiLinks\<close> leaves a row with a smaller frequency
  than it had.
\<close>

theorem upsertWikiLink_merges_by_text:
  assumes "available db" and "storeInvariant db" and "isNumber (frequency link)"
  shows "(\<exists>ident db'.
            upsertWikiLink db now link = Inr (ident, db') \<and>
            storeInvariant db' \<and>
            length (rowsWithText db' (linkText link)) = 1 \<and>
            (case frequencyOf db (linkText link) of
               Some f \<Rightarrow>
                 frequencyOf db' (linkText link) = Some (jsPlus f 1) \<and>
                 f \<le> jsPlus f 1 \<and>
                 (- (2 ^ 53) \<le> f \<and> f < 2 ^ 53 \<longrightarrow>
                    frequencyOf db' (linkText link) = Some (f + 1)) \<and>
                 lastUsedOf db' (linkText link) = Some now \<and>
                 length (wiki_links db') = length (wiki_links db)
             | None \<Rightarrow>
                 frequencyOf db' (linkText link) = Some (frequency link) \<and>
                 length (wiki_links db') = length (wiki_links db) + 1) \<and>
            (\<forall>t. t \<noteq> linkText link \<longrightarrow> frequencyOf db' t = frequencyOf db t) \<and>
            notDecremented db db') \<and>
         (\<forall>ident a db'. insertWikiLinkAlias db ident a = Inr db' \<longrightarrow>
            wiki_links db' = wiki_links db \<and> notDecremented db db') \<and>
         (\<forall>db'. clearWikiLinks db = Inr db' \<longrightarrow> notDecremented db db')"
proof (intro conjI)
  show "\<exists>ident db'.
            upsertWikiLink db now link = Inr (ident, db') \<and>
            storeInvariant db' \<and>
            length (rowsWithText db' (linkText link)) = 1 \<and>
            (case frequencyOf db (linkText link) of
               Some f \<Rightarrow>
                 frequencyOf db' (linkText link) = Some (jsPlus f 1) \<and>
                 f \<le> jsPlus f 1 \<and>
                 (- (2 ^ 53) \<le> f \<and> f < 2 ^ 53 \<longrightarrow>
                    frequencyOf db' (linkText link) = Some (f + 1)) \<and>
                 lastUsedOf db' (linkText link) = Some now \<and>
                 length (wiki_links db') = length (wiki_links db)
             | None \<Rightarrow>
                 frequencyOf db' (linkText link) = Some (frequency link) \<and>
                 length (wiki_links db') = length (wiki_links db) + 1) \<and>
            (\<forall>t. t \<noteq> linkText link \<longrightarrow> frequencyOf db' t = frequencyOf db t) \<and>
            notDecremented db db'"
  proof (cases "find (\<lambda>r. row_text r = linkText link) (wiki_links db)")
    case None
    from upsert_new [OF assms(2) assms(1) assms(3) None, of now]
    obtain db' where "upsertWikiLink db now link = Inr (wiki_links_seq db + 1, db')"
      "storeInvariant db'" "length (wiki_links db') = length (wiki_links db) + 1"
      "length (rowsWithText db' (linkText link)) = 1"
      "frequencyOf db' (linkText link) = Some (frequency link)"
      "\<forall>t. t \<noteq> linkText link \<longrightarrow> frequencyOf db' t = frequencyOf db t"
      "notDecremented db db'"
      by blast
    then show ?thesis using None by (simp add: frequencyOf_def)
  next
    case (Some e)
    have e_num: "isNumber (row_frequency e)"
      using assms(2) find_in_set [OF Some] by (simp add: storeInvariant_def list_all_iff)
    have grow: "row_frequency e \<le> jsPlus (row_frequency e) 1"
      by (rule jsPlus_not_less [OF e_num])
    have exact: "- (2 ^ 53) \<le> row_frequency e \<and> row_frequency e < 2 ^ 53 \<longrightarrow>
        jsPlus (row_frequency e) 1 = row_frequency e + 1"
      using jsPlus_exact [of "row_frequency e"] by blast
    from upsert_existing [OF assms(2) assms(1) Some, of now]
    obtain db' where "upsertWikiLink db now link = Inr (row_id e, db')"
      "storeInvariant db'" "length (wiki_links db') = length (wiki_links db)"
      "length (rowsWithText db' (linkText link)) = 1"
      "frequencyOf db' (linkText link) = Some (jsPlus (row_frequency e) 1)"
      "lastUsedOf db' (linkText link) = Some now"
      "\<forall>t. t \<noteq> linkText link \<longrightarrow> frequencyOf db' t = frequencyOf db t"
      "notDecremented db db'"
      by blast
    moreover have "frequencyOf db (linkText link) = Some (row_frequency e)"
      using Some by (simp add: frequencyOf_def)
    ultimately show ?thesis using grow exact by auto
  qed
next
  show "\<forall>ident a db'. insertWikiLinkAlias db ident a = Inr db' \<longrightarrow>
          wiki_links db' = wiki_links db \<and> notDecremented db db'"
  proof (intro allI impI)
    fix ident a db'
    assume ins: "insertWikiLinkAlias db ident a = Inr db'"
    then have same: "wiki_links db' = wiki_links db"
      by (auto simp: insertWikiLinkAlias_def Let_def split: if_splits)
    moreover have "notDecremented db db'"
      using notDecremented_same_rows [OF _ same] assms(2) by (simp add: storeInvariant_def)
    ultimately show "wiki_links db' = wiki_links db \<and> notDecremented db db'" by simp
  qed
next
  show "\<forall>db'. clearWikiLinks db = Inr db' \<longrightarrow> notDecremented db db'"
    by (auto simp: clearWikiLinks_def notDecremented_def split: if_splits)
qed

theorem upsertWikiLink_merges_by_text_witness:
  "available nateStore \<and> storeInvariant nateStore \<and>
   isNumber (frequency nateLink) \<and> isNumber (frequency climbingLink) \<and>
   frequencyOf nateStore ''Nate Stapleton'' = Some 1 \<and>
   frequencyOf nateStore ''Climbing'' = None \<and>
   (\<exists>ident db'.
      upsertWikiLink nateStore 20 nateLink = Inr (ident, db') \<and>
      length (rowsWithText db' ''Nate Stapleton'') = 1 \<and>
      frequencyOf db' ''Nate Stapleton'' = Some 2 \<and>
      lastUsedOf db' ''Nate Stapleton'' = Some 20 \<and>
      length (wiki_links db') = 1) \<and>
   (\<exists>ident db'.
      upsertWikiLink nateStore 20 climbingLink = Inr (ident, db') \<and>
      length (rowsWithText db' ''Climbing'') = 1 \<and>
      frequencyOf db' ''Climbing'' = Some 1 \<and>
      length (wiki_links db') = 2)"
proof -
  have one: "isNumber 1" by (rule isNumber_small) simp_all
  have av: "available nateStore" by (simp add: nateStore_def)
  have inv: "storeInvariant nateStore" using one by (simp add: nateStore_def storeInvariant_def)
  have n1: "isNumber (frequency nateLink)" using one by (simp add: nateLink_def)
  have n2: "isNumber (frequency climbingLink)" using one by (simp add: climbingLink_def)
  have f1: "frequencyOf nateStore ''Nate Stapleton'' = Some 1"
    by (simp add: nateStore_def frequencyOf_def)
  have f2: "frequencyOf nateStore ''Climbing'' = None"
    by (simp add: nateStore_def frequencyOf_def)
  have l: "length (wiki_links nateStore) = 1" by (simp add: nateStore_def)
  have t1: "linkText nateLink = ''Nate Stapleton''" by (simp add: nateLink_def)
  have t2: "linkText climbingLink = ''Climbing''" "frequency climbingLink = 1"
    by (simp_all add: climbingLink_def)
  have a: "\<exists>ident db'.
      upsertWikiLink nateStore 20 nateLink = Inr (ident, db') \<and>
      length (rowsWithText db' ''Nate Stapleton'') = 1 \<and>
      frequencyOf db' ''Nate Stapleton'' = Some 2 \<and>
      lastUsedOf db' ''Nate Stapleton'' = Some 20 \<and>
      length (wiki_links db') = 1"
    using upsertWikiLink_merges_by_text [OF av inv n1, of 20]
    unfolding t1 f1 l by auto
  have b: "\<exists>ident db'.
      upsertWikiLink nateStore 20 climbingLink = Inr (ident, db') \<and>
      length (rowsWithText db' ''Climbing'') = 1 \<and>
      frequencyOf db' ''Climbing'' = Some 1 \<and>
      length (wiki_links db') = 2"
    using upsertWikiLink_merges_by_text [OF av inv n2, of 20]
    unfolding t2 f2 l by auto
  show ?thesis using av inv n1 n2 f1 f2 a b by blast
qed

text \<open>
  A link added with the frequency \<open>2^53\<close> is stored with it. The next
  \<open>upsertWikiLink\<close> of the same text computes \<open>2^53 + 1\<close> on a JavaScript number,
  which is \<open>2^53\<close> again: the row keeps its frequency, and a call has passed without
  an increase by 1.
\<close>

theorem upsertWikiLink_limit_counterexample:
  "upsertWikiLink emptyStore 20 limitLink = Inr (1, limitStore) \<and>
   frequencyOf limitStore ''Nate Stapleton'' = Some 9007199254740992 \<and>
   (case upsertWikiLink limitStore 30 limitLink of
      Inl e \<Rightarrow> None
    | Inr (ident, db') \<Rightarrow> frequencyOf db' ''Nate Stapleton'') = Some 9007199254740992"
proof -
  have a: "upsertWikiLink emptyStore 20 limitLink = Inr (1, limitStore)"
    by (simp add: upsertWikiLink_def emptyStore_def limitLink_def nateLink_def limitStore_def)
  have b: "frequencyOf limitStore ''Nate Stapleton'' = Some 9007199254740992"
    by (simp add: frequencyOf_def limitStore_def)
  have j: "jsPlus 9007199254740992 1 = 9007199254740992"
    using jsPlus_at_limit by simp
  have c: "(case upsertWikiLink limitStore 30 limitLink of
      Inl e \<Rightarrow> None
    | Inr (ident, db') \<Rightarrow> frequencyOf db' ''Nate Stapleton'') = Some 9007199254740992"
    by (simp add: upsertWikiLink_def limitStore_def limitLink_def nateLink_def frequencyOf_def j)
  show ?thesis using a b c by simp
qed

text \<open>
  C3. \<open>nateStore\<close> holds the link with key 1 and no alias. Inserting the alias
  \<open>nate\<close> for it succeeds and stores one row; inserting the same alias for the same
  link again succeeds too and stores a second row with the same \<open>link_id\<close> and the
  same \<open>alias\<close>: the table has no uniqueness constraint on the pair for
  \<open>OR IGNORE\<close> to act on.
\<close>

theorem insertWikiLinkAlias_twice:
  "insertWikiLinkAlias nateStore 1 ''nate'' = Inr nateOnce \<and>
   insertWikiLinkAlias nateOnce 1 ''nate'' = Inr nateTwice \<and>
   map alias_text (wiki_link_aliases nateOnce) = [''nate''] \<and>
   map link_id (wiki_link_aliases nateOnce) = [1] \<and>
   map alias_text (wiki_link_aliases nateTwice) = [''nate'', ''nate''] \<and>
   map link_id (wiki_link_aliases nateTwice) = [1, 1] \<and>
   wiki_link_aliases nateTwice \<noteq> wiki_link_aliases nateOnce"
proof -
  have lower: "toLowerCase ''nate'' = ''nate''" by (simp add: toLowerCase_def chr_defs)
  have 1: "insertWikiLinkAlias nateStore 1 ''nate'' = Inr nateOnce"
    by (simp add: insertWikiLinkAlias_def uniqueConflict_def lower nateStore_def nateOnce_def)
  have 2: "insertWikiLinkAlias nateOnce 1 ''nate'' = Inr nateTwice"
    by (simp add: insertWikiLinkAlias_def uniqueConflict_def lower nateStore_def nateOnce_def
        nateTwice_def)
  show ?thesis using 1 2 by (simp add: nateOnce_def nateTwice_def)
qed

section \<open>The cache\<close>

lemma mapGet_mapSet: "mapGet (mapSet m k v) k' = (if k' = k then Some v else mapGet m k')"
  by (induction m) (auto simp: mapGet_def)

lemma mapGet_foldl_mapSet:
  "mapGet (foldl (\<lambda>m' a. mapSet m' (f a) v) m as) k =
     (if k \<in> f ` set as then Some v else mapGet m k)"
  by (induction as arbitrary: m) (auto simp: mapGet_mapSet)

lemma mapGet_cacheLink:
  "mapGet (cacheLink m link) k = (if k \<in> set (linkKeys link) then Some link else mapGet m k)"
  by (auto simp: cacheLink_def linkKeys_def mapGet_foldl_mapSet mapGet_mapSet)

lemma mapGet_foldl_cacheLink:
  "mapGet (foldl cacheLink m links) k =
     (case find (\<lambda>l. k \<in> set (linkKeys l)) (rev links) of
        Some l \<Rightarrow> Some l
      | None \<Rightarrow> mapGet m k)"
proof (induction links arbitrary: m)
  case Nil
  then show ?case by simp
next
  case (Cons a links)
  show ?case
    by (simp add: Cons.IH find_append_rows mapGet_cacheLink split: option.splits)
qed

lemma find_last_owner:
  assumes "k \<in> set (linkKeys e)" and "list_all (\<lambda>l. k \<notin> set (linkKeys l)) after"
  shows "find (\<lambda>l. k \<in> set (linkKeys l)) (rev (pre @ e # after)) = Some e"
proof -
  have "find (\<lambda>l. k \<in> set (linkKeys l)) (rev after) = None"
    using assms(2) by (simp add: find_None_iff list_all_iff)
  then show ?thesis using assms(1) by (simp add: find_append_rows)
qed

lemma getAllWikiLinks_descending:
  assumes "getAllWikiLinks db = Inr links"
  shows "sorted_wrt (\<lambda>a b. frequency b \<le> frequency a) links"
proof -
  let ?rows = "sort_key (\<lambda>row. - row_frequency row) (wiki_links db)"
  have "sorted (map (\<lambda>row. - row_frequency row) ?rows)" by (rule sorted_sort_key)
  then have rows: "sorted_wrt (\<lambda>a b. row_frequency b \<le> row_frequency a) ?rows"
    by (simp add: sorted_wrt_map)
  obtain f where links: "links = map f ?rows" and f: "\<And>r. frequency (f r) = row_frequency r"
  proof
    show "links = map (\<lambda>row. rowToLink row
              (map alias_text (filter (\<lambda>a. link_id a = row_id row) (wiki_link_aliases db)))) ?rows"
      using assms by (simp add: getAllWikiLinks_def split: if_splits)
    show "\<And>r. frequency (rowToLink r
              (map alias_text (filter (\<lambda>a. link_id a = row_id r) (wiki_link_aliases db)))) =
            row_frequency r"
      by (simp add: rowToLink_def)
  qed
  show ?thesis using rows by (simp add: links sorted_wrt_map f)
qed

lemma find_first_index:
  assumes "find P xs = Some x"
  obtains i where "i < length xs" and "xs ! i = x" and "P x" and "\<forall>j<i. \<not> P (xs ! j)"
  using assms by (auto simp: find_Some_iff)

lemma four_sel:
  "linkText nate1 = ''Nate''" "aliases nate1 = [''nate'']"
  "linkText nathan2 = ''Nathan''" "aliases nathan2 = [''nathan'']"
  "linkText stapleton3 = ''Nate Stapleton''"
  "aliases stapleton3 = [''nate stapleton'', ''nate'', ''stapleton'']"
  "linkText archibald4 = ''Nate Archibald''"
  "aliases archibald4 = [''nate archibald'', ''nate'', ''archibald'']"
  by (simp_all add: nate1_def nathan2_def stapleton3_def archibald4_def)

lemma lower_simps:
  "toLowerCase ''Nat'' = ''nat''" "toLowerCase ''nat'' = ''nat''"
  "toLowerCase ''Nate'' = ''nate''" "toLowerCase ''nate'' = ''nate''"
  "toLowerCase ''Nathan'' = ''nathan''" "toLowerCase ''nathan'' = ''nathan''"
  "toLowerCase ''Nate Stapleton'' = ''nate stapleton''"
  "toLowerCase ''nate stapleton'' = ''nate stapleton''"
  "toLowerCase ''stapleton'' = ''stapleton''"
  "toLowerCase ''Nate Archibald'' = ''nate archibald''"
  "toLowerCase ''nate archibald'' = ''nate archibald''"
  "toLowerCase ''archibald'' = ''archibald''"
  by (simp_all add: toLowerCase_def chr_defs)

lemma getAll_fourStore:
  "getAllWikiLinks fourStore = Inr [nate1, nathan2, stapleton3, archibald4]"
  by (simp add: getAllWikiLinks_def fourStore_def rowToLink_def
      nate1_def nathan2_def stapleton3_def archibald4_def)

lemma cache_fourStore:
  "foldl cacheLink [] [nate1, nathan2, stapleton3, archibald4] = fourCache"
  by (simp add: cacheLink_def four_sel lower_simps fourCache_def)

lemma load_fourStore:
  "loadLinks emptyService fourStore 0 = Inr \<lparr>cache = fourCache, cacheExpiry = CACHE_TTL_MS\<rparr>"
  using cache_fourStore by (simp add: loadLinks_def emptyService_def getAll_fourStore)

lemma alias_nat: "findWikiLinkByAlias fourStore ''nat'' = Inr None"
  by (simp add: findWikiLinkByAlias_def fourStore_def lower_simps sqlLower_def chr_defs)

lemma distinct_four:
  "nate1 \<noteq> archibald4" "nate1 \<noteq> stapleton3" "stapleton3 \<noteq> archibald4"
  "nathan2 \<noteq> archibald4"
  by (simp_all add: nate1_def nathan2_def stapleton3_def archibald4_def)

section \<open>findMatch\<close>

text \<open>
  C8, as the code has it. While the store cannot be queried, \<open>loadLinks\<close> returns
  only when the cache is fresh (not empty and not expired) and then leaves it as it
  is; otherwise its query throws and \<open>loadLinks\<close> fails with the store's error.
  \<open>findMatch\<close> returns only on a fresh cache that holds the lowercased text as a
  key, and then returns the cached link; in every other case it fails with the
  store's error, from the reload or from the alias lookup. Nothing in the service
  catches the error.
\<close>

theorem findMatch_store_unavailable:
  assumes "\<not> available db"
  shows "loadLinks svc db now =
           (if cache svc \<noteq> [] \<and> now < cacheExpiry svc then Inr svc
            else Inl StoreUnavailable) \<and>
         findMatch svc db now t =
           (if cache svc \<noteq> [] \<and> now < cacheExpiry svc
            then (case mapGet (cache svc) (toLowerCase t) of
                    Some link \<Rightarrow> Inr (Some link, svc)
                  | None \<Rightarrow> Inl StoreUnavailable)
            else Inl StoreUnavailable)"
proof -
  have q: "getAllWikiLinks db = Inl StoreUnavailable"
    using assms by (simp add: getAllWikiLinks_def)
  have a: "findWikiLinkByAlias db (toLowerCase t) = Inl StoreUnavailable"
    using assms by (simp add: findWikiLinkByAlias_def)
  have l: "loadLinks svc db now =
           (if cache svc \<noteq> [] \<and> now < cacheExpiry svc then Inr svc
            else Inl StoreUnavailable)"
    by (simp add: loadLinks_def q)
  show ?thesis
    by (simp add: l findMatch_def a Let_def split: option.splits)
qed

theorem findMatch_store_unavailable_witness:
  "\<not> available downStore \<and>
   loadLinks emptyService downStore 0 = Inl StoreUnavailable \<and>
   findMatch emptyService downStore 0 ''Nate'' = Inl StoreUnavailable \<and>
   findMatch \<lparr>cache = fourCache, cacheExpiry = 100\<rparr> downStore 50 ''Nate'' =
     Inr (Some archibald4, \<lparr>cache = fourCache, cacheExpiry = 100\<rparr>) \<and>
   findMatch \<lparr>cache = fourCache, cacheExpiry = 100\<rparr> downStore 50 ''Nat'' =
     Inl StoreUnavailable"
proof -
  have d: "\<not> available downStore" by (simp add: downStore_def nateStore_def)
  have g: "mapGet fourCache ''nate'' = Some archibald4" "mapGet fourCache ''nat'' = None"
    by (simp_all add: mapGet_def fourCache_def)
  have f: "fourCache \<noteq> []" by (simp add: fourCache_def)
  show ?thesis
    using d findMatch_store_unavailable [OF d, of emptyService 0 "''Nate''"]
      findMatch_store_unavailable [OF d, of "\<lparr>cache = fourCache, cacheExpiry = 100\<rparr>" 50 "''Nate''"]
      findMatch_store_unavailable [OF d, of "\<lparr>cache = fourCache, cacheExpiry = 100\<rparr>" 50 "''Nat''"]
    by (simp add: emptyService_def lower_simps g f)
qed

text \<open>
  With the store down and the cache empty, both operations fail with the store's
  error; neither returns an empty result.
\<close>

theorem findMatch_store_unavailable_counterexample:
  "loadLinks emptyService downStore 0 = Inl StoreUnavailable \<and>
   findMatch emptyService downStore 0 ''Nate'' = Inl StoreUnavailable"
  by (simp add: findMatch_def loadLinks_def getAllWikiLinks_def emptyService_def
      downStore_def nateStore_def)

lemma find_None_all:
  "find P xs = None \<Longrightarrow> list_all (\<lambda>x. \<not> P x) xs"
  by (simp add: find_None_iff list_all_iff)

lemma findMatch_fourStore_nat:
  "findMatch emptyService fourStore 0 ''Nat'' =
     Inr (Some archibald4, \<lparr>cache = fourCache, cacheExpiry = CACHE_TTL_MS\<rparr>)"
proof -
  have "mapGet fourCache ''nat'' = None" by (simp add: mapGet_def fourCache_def)
  moreover have "partialMatch fourCache ''nat'' = Some archibald4"
    by (simp add: partialMatch_def partialHit_def fourCache_def)
  ultimately show ?thesis
    by (simp add: findMatch_def load_fourStore lower_simps alias_nat Let_def)
qed

lemma findMatch_fourStore_nate:
  "findMatch emptyService fourStore 0 ''Nate'' =
     Inr (Some archibald4, \<lparr>cache = fourCache, cacheExpiry = CACHE_TTL_MS\<rparr>)"
proof -
  have "mapGet fourCache ''nate'' = Some archibald4" by (simp add: mapGet_def fourCache_def)
  then show ?thesis
    by (simp add: findMatch_def load_fourStore lower_simps Let_def)
qed

text \<open>
  C4, as the code has it. When the lowercased text is no key of the cache and the
  alias lookup of the store finds nothing, \<open>findMatch\<close> returns the link of the first
  key, in the order in which the cache holds its keys, that contains the lowercased
  text or is contained in it, and no link when no key does. Neither the frequency of
  the links nor the length of the keys takes part.
\<close>

theorem findMatch_partial_first_key:
  assumes "loadLinks svc db now = Inr svc'"
    and "mapGet (cache svc') (toLowerCase t) = None"
    and "findWikiLinkByAlias db (toLowerCase t) = Inr None"
  shows "\<exists>r. findMatch svc db now t = Inr (r, svc') \<and>
           (case r of
              None \<Rightarrow>
                list_all (\<lambda>(key, link). \<not> partialHit key (toLowerCase t)) (cache svc')
            | Some link \<Rightarrow>
                (\<exists>i<length (cache svc').
                   snd (cache svc' ! i) = link \<and>
                   partialHit (fst (cache svc' ! i)) (toLowerCase t) \<and>
                   (\<forall>j<i. \<not> partialHit (fst (cache svc' ! j)) (toLowerCase t))))"
proof -
  let ?P = "\<lambda>(key, link). partialHit key (toLowerCase t)"
  have fm: "findMatch svc db now t = Inr (partialMatch (cache svc') (toLowerCase t), svc')"
    using assms by (simp add: findMatch_def Let_def)
  show ?thesis
  proof (cases "find ?P (cache svc')")
    case None
    have "list_all (\<lambda>x. \<not> ?P x) (cache svc')" by (rule find_None_all [OF None])
    then have "list_all (\<lambda>(key, link). \<not> partialHit key (toLowerCase t)) (cache svc')"
      by (simp add: case_prod_unfold)
    then show ?thesis using fm None by (simp add: partialMatch_def)
  next
    case (Some kl)
    from Some obtain i where i: "i < length (cache svc')" and at: "cache svc' ! i = kl"
      and hit: "?P kl" and first: "\<forall>j<i. \<not> ?P (cache svc' ! j)"
      by (rule find_first_index)
    have h1: "partialHit (fst (cache svc' ! i)) (toLowerCase t)"
      using hit at by (simp add: case_prod_unfold)
    have h2: "\<forall>j<i. \<not> partialHit (fst (cache svc' ! j)) (toLowerCase t)"
      using first by (simp add: case_prod_unfold)
    have "\<exists>i<length (cache svc').
                   snd (cache svc' ! i) = snd kl \<and>
                   partialHit (fst (cache svc' ! i)) (toLowerCase t) \<and>
                   (\<forall>j<i. \<not> partialHit (fst (cache svc' ! j)) (toLowerCase t))"
      using i at h1 h2 by (intro exI [of _ i]) simp
    then show ?thesis using fm Some by (simp add: partialMatch_def)
  qed
qed

theorem findMatch_partial_first_key_witness:
  "loadLinks emptyService fourStore 0 = Inr \<lparr>cache = fourCache, cacheExpiry = CACHE_TTL_MS\<rparr> \<and>
   mapGet fourCache (toLowerCase ''Nat'') = None \<and>
   findWikiLinkByAlias fourStore (toLowerCase ''Nat'') = Inr None \<and>
   (\<exists>r. findMatch emptyService fourStore 0 ''Nat'' =
           Inr (r, \<lparr>cache = fourCache, cacheExpiry = CACHE_TTL_MS\<rparr>) \<and>
        r = Some archibald4 \<and>
        fourCache ! 0 = (''nate'', archibald4) \<and>
        partialHit ''nate'' ''nat'')"
proof -
  let ?svc = "\<lparr>cache = fourCache, cacheExpiry = CACHE_TTL_MS\<rparr>"
  have g: "mapGet (cache ?svc) (toLowerCase ''Nat'') = None"
    by (simp add: mapGet_def fourCache_def lower_simps)
  have a: "findWikiLinkByAlias fourStore (toLowerCase ''Nat'') = Inr None"
    by (simp add: lower_simps alias_nat)
  from findMatch_partial_first_key [OF load_fourStore g a]
  obtain r where r: "findMatch emptyService fourStore 0 ''Nat'' = Inr (r, ?svc)" by blast
  then have "r = Some archibald4" by (simp add: findMatch_fourStore_nat)
  moreover have "fourCache ! 0 = (''nate'', archibald4)" by (simp add: fourCache_def)
  moreover have "partialHit ''nate'' ''nat''" by (simp add: partialHit_def)
  ultimately show ?thesis using load_fourStore g a r by simp
qed

text \<open>
  In \<open>fourStore\<close> the key \<open>nate\<close> stands first in the cache and belongs to
  \<open>Nate Archibald\<close>, of frequency 1. For the text \<open>Nat\<close> the partial step is
  reached, and \<open>findMatch\<close> returns \<open>Nate Archibald\<close>, although the key \<open>nathan\<close>
  contains \<open>nat\<close> too and belongs to \<open>Nathan\<close>, of frequency 5.
\<close>

theorem findMatch_partial_counterexample:
  "mapGet fourCache ''nat'' = None \<and>
   findWikiLinkByAlias fourStore ''nat'' = Inr None \<and>
   findMatch emptyService fourStore 0 ''Nat'' =
     Inr (Some archibald4, \<lparr>cache = fourCache, cacheExpiry = CACHE_TTL_MS\<rparr>) \<and>
   mapGet fourCache ''nathan'' = Some nathan2 \<and>
   partialHit ''nathan'' ''nat'' \<and>
   frequency archibald4 = 1 \<and> frequency nathan2 = 5"
proof -
  have "mapGet fourCache ''nat'' = None" "mapGet fourCache ''nathan'' = Some nathan2"
    by (simp_all add: mapGet_def fourCache_def)
  moreover have "partialHit ''nathan'' ''nat''" by (simp add: partialHit_def)
  moreover have "frequency archibald4 = 1" "frequency nathan2 = 5"
    by (simp_all add: archibald4_def nathan2_def)
  ultimately show ?thesis using alias_nat findMatch_fourStore_nat by simp
qed

section \<open>loadLinks\<close>

text \<open>
  C10, as the code has it. \<open>getAllWikiLinks\<close> lists the links by descending
  frequency, and a reload stores every link under its lowercased text and its
  lowercased aliases, a later link replacing an earlier one under the same key: after
  the reload each key maps to the last link of the list that has it. So when a
  lowercased alias of a link \<open>e2\<close> is the lowercased text of an earlier link \<open>e1\<close>,
  and no link after \<open>e2\<close> has that key, the cache maps the key to \<open>e2\<close> and
  \<open>findMatch\<close> on the text of \<open>e1\<close> returns \<open>e2\<close>, not \<open>e1\<close>.
\<close>

theorem loadLinks_last_key_owner:
  assumes "getAllWikiLinks db = Inr links"
    and "cache svc = [] \<or> cacheExpiry svc \<le> now"
    and "links = pre @ e2 # post"
    and "e1 \<in> set pre" and "e1 \<noteq> e2"
    and "toLowerCase (linkText e1) \<in> set (map toLowerCase (aliases e2))"
    and "list_all (\<lambda>l. toLowerCase (linkText e1) \<notin> set (linkKeys l)) post"
  shows "sorted_wrt (\<lambda>a b. frequency b \<le> frequency a) links \<and>
         (\<exists>svc'. loadLinks svc db now = Inr svc' \<and>
            (\<forall>k. mapGet (cache svc') k = find (\<lambda>l. k \<in> set (linkKeys l)) (rev links)) \<and>
            mapGet (cache svc') (toLowerCase (linkText e1)) = Some e2 \<and>
            findMatch svc db now (linkText e1) = Inr (Some e2, svc') \<and>
            findMatch svc db now (linkText e1) \<noteq> Inr (Some e1, svc'))"
proof -
  define svc' where "svc' = \<lparr>cache = foldl cacheLink [] links, cacheExpiry = now + CACHE_TTL_MS\<rparr>"
  let ?k = "toLowerCase (linkText e1)"
  have ld: "loadLinks svc db now = Inr svc'"
    using assms(1,2) by (auto simp: loadLinks_def svc'_def)
  have empty: "\<And>k. mapGet ([] :: (string, WikiLink) js_map) k = None"
    by (simp add: mapGet_def)
  have all: "\<forall>k. mapGet (cache svc') k = find (\<lambda>l. k \<in> set (linkKeys l)) (rev links)"
    by (simp add: svc'_def mapGet_foldl_cacheLink empty split: option.splits)
  have key: "?k \<in> set (linkKeys e2)"
    using assms(6) by (simp add: linkKeys_def)
  have get: "mapGet (cache svc') ?k = Some e2"
    using all find_last_owner [OF key assms(7), of pre] by (simp add: assms(3))
  have fm: "findMatch svc db now (linkText e1) = Inr (Some e2, svc')"
    by (simp add: findMatch_def ld get Let_def)
  have ne: "findMatch svc db now (linkText e1) \<noteq> Inr (Some e1, svc')"
    using fm assms(5) by simp
  have "\<exists>svc'. loadLinks svc db now = Inr svc' \<and>
            (\<forall>k. mapGet (cache svc') k = find (\<lambda>l. k \<in> set (linkKeys l)) (rev links)) \<and>
            mapGet (cache svc') (toLowerCase (linkText e1)) = Some e2 \<and>
            findMatch svc db now (linkText e1) = Inr (Some e2, svc') \<and>
            findMatch svc db now (linkText e1) \<noteq> Inr (Some e1, svc')"
    using ld all get fm ne by (intro exI [of _ svc'] conjI)
  then show ?thesis
    using getAllWikiLinks_descending [OF assms(1)] by (intro conjI)
qed

theorem loadLinks_last_key_owner_witness:
  "getAllWikiLinks fourStore = Inr ([nate1, nathan2, stapleton3] @ archibald4 # []) \<and>
   nate1 \<noteq> archibald4 \<and>
   toLowerCase (linkText nate1) \<in> set (map toLowerCase (aliases archibald4)) \<and>
   (\<exists>svc'. loadLinks emptyService fourStore 0 = Inr svc' \<and>
      mapGet (cache svc') ''nate'' = Some archibald4 \<and>
      findMatch emptyService fourStore 0 ''Nate'' = Inr (Some archibald4, svc'))"
proof -
  have a1: "getAllWikiLinks fourStore = Inr [nate1, nathan2, stapleton3, archibald4]"
    by (rule getAll_fourStore)
  have a2: "cache emptyService = [] \<or> cacheExpiry emptyService \<le> 0"
    by (simp add: emptyService_def)
  have a3: "[nate1, nathan2, stapleton3, archibald4] = [nate1, nathan2, stapleton3] @ archibald4 # []"
    by simp
  have a4: "nate1 \<in> set [nate1, nathan2, stapleton3]" by simp
  have a5: "nate1 \<noteq> archibald4" by (rule distinct_four)
  have a6: "toLowerCase (linkText nate1) \<in> set (map toLowerCase (aliases archibald4))"
    by (simp add: four_sel lower_simps)
  have a7: "list_all (\<lambda>l. toLowerCase (linkText nate1) \<notin> set (linkKeys l)) []" by simp
  from loadLinks_last_key_owner [OF a1 a2 a3 a4 a5 a6 a7]
  obtain svc' where "loadLinks emptyService fourStore 0 = Inr svc'"
    "mapGet (cache svc') (toLowerCase (linkText nate1)) = Some archibald4"
    "findMatch emptyService fourStore 0 (linkText nate1) = Inr (Some archibald4, svc')"
    by blast
  then have "\<exists>svc'. loadLinks emptyService fourStore 0 = Inr svc' \<and>
      mapGet (cache svc') ''nate'' = Some archibald4 \<and>
      findMatch emptyService fourStore 0 ''Nate'' = Inr (Some archibald4, svc')"
    by (intro exI [of _ svc']) (simp add: four_sel lower_simps)
  then show ?thesis using a1 a5 a6 by simp
qed

text \<open>
  In \<open>fourStore\<close> the link \<open>Nate Stapleton\<close> comes after \<open>Nate\<close> and has the
  alias \<open>nate\<close>; yet the cache maps \<open>nate\<close> to \<open>Nate Archibald\<close>, which comes
  later still and has the alias too, and \<open>findMatch\<close> on \<open>Nate\<close> returns
  \<open>Nate Archibald\<close>.
\<close>

theorem loadLinks_shadow_counterexample:
  "getAllWikiLinks fourStore = Inr [nate1, nathan2, stapleton3, archibald4] \<and>
   nate1 \<noteq> stapleton3 \<and>
   toLowerCase (linkText nate1) \<in> set (map toLowerCase (aliases stapleton3)) \<and>
   loadLinks emptyService fourStore 0 =
     Inr \<lparr>cache = fourCache, cacheExpiry = CACHE_TTL_MS\<rparr> \<and>
   mapGet fourCache (toLowerCase (linkText nate1)) = Some archibald4 \<and>
   findMatch emptyService fourStore 0 (linkText nate1) =
     Inr (Some archibald4, \<lparr>cache = fourCache, cacheExpiry = CACHE_TTL_MS\<rparr>) \<and>
   archibald4 \<noteq> stapleton3"
proof -
  have "toLowerCase (linkText nate1) \<in> set (map toLowerCase (aliases stapleton3))"
    by (simp add: four_sel lower_simps)
  moreover have "mapGet fourCache (toLowerCase (linkText nate1)) = Some archibald4"
    by (simp add: four_sel lower_simps mapGet_def fourCache_def)
  moreover have "archibald4 \<noteq> stapleton3" "nate1 \<noteq> stapleton3"
    using distinct_four by simp_all
  ultimately show ?thesis
    using getAll_fourStore load_fourStore findMatch_fourStore_nate by (simp add: four_sel)
qed

section \<open>scanVaultForLinks\<close>

lemma invalidateCache_twice: "invalidateCache (invalidateCache svc) = invalidateCache svc"
  by (simp add: invalidateCache_def)

text \<open>
  C5, as the code has it. \<open>getAllMarkdownFiles\<close> does not fail: a directory that
  cannot be read is passed over, the root too, and the walk of an unreadable root
  returns no file. The scan then goes on to its commit with nothing gathered: on an
  available store the links and their aliases are all deleted, none is added, and the
  scan returns 0. The scan leaves the store as it was when it stops ahead of the walk
  (no vault is configured, or the permission is refused), or when the store cannot be
  queried.
\<close>

theorem scanVaultForLinks_unreadable_root:
  "getAllMarkdownFiles p UnreadableDir = [] \<and>
   (config v = Some p \<and> hasPermission v \<and> root v = UnreadableDir \<and> available db \<longrightarrow>
      scanVaultForLinks v svc db now =
        (0, invalidateCache svc, db\<lparr>wiki_link_aliases := [], wiki_links := []\<rparr>)) \<and>
   (config v = None \<or> \<not> hasPermission v \<longrightarrow> scanVaultForLinks v svc db now = (0, svc, db)) \<and>
   (\<not> available db \<longrightarrow> scanVaultForLinks v svc db now = (0, svc, db))"
proof (intro conjI impI)
  show "getAllMarkdownFiles p UnreadableDir = []"
    by (simp add: getAllMarkdownFiles_def)
next
  assume a: "config v = Some p \<and> hasPermission v \<and> root v = UnreadableDir \<and> available db"
  have clear: "clearAllLinks svc db =
      (None, invalidateCache svc, db\<lparr>wiki_link_aliases := [], wiki_links := []\<rparr>)"
    using a by (simp add: clearAllLinks_def clearWikiLinks_def)
  have add: "\<And>s d. bulkAddLinks s d now [] = (None, invalidateCache s, d)"
    by (simp add: bulkAddLinks_def)
  show "scanVaultForLinks v svc db now =
        (0, invalidateCache svc, db\<lparr>wiki_link_aliases := [], wiki_links := []\<rparr>)"
    using a
    by (simp add: scanVaultForLinks_def getAllMarkdownFiles_def clear add invalidateCache_twice)
next
  assume "config v = None \<or> \<not> hasPermission v"
  then show "scanVaultForLinks v svc db now = (0, svc, db)"
    by (auto simp: scanVaultForLinks_def split: option.splits)
next
  assume a: "\<not> available db"
  have clear: "clearAllLinks svc db = (Some StoreUnavailable, svc, db)"
    using a by (simp add: clearAllLinks_def clearWikiLinks_def)
  show "scanVaultForLinks v svc db now = (0, svc, db)"
    by (simp add: scanVaultForLinks_def clear Let_def split: option.splits)
qed

theorem scanVaultForLinks_unreadable_root_witness:
  "config unreadableVault = Some ''/vault'' \<and> hasPermission unreadableVault \<and>
   root unreadableVault = UnreadableDir \<and> available nateOnce \<and>
   scanVaultForLinks unreadableVault emptyService nateOnce 30 =
     (0, emptyService, nateOnce\<lparr>wiki_link_aliases := [], wiki_links := []\<rparr>) \<and>
   \<not> hasPermission (unreadableVault\<lparr>hasPermission := False\<rparr>) \<and>
   scanVaultForLinks (unreadableVault\<lparr>hasPermission := False\<rparr>) emptyService nateOnce 30 =
     (0, emptyService, nateOnce) \<and>
   \<not> available downStore \<and>
   scanVaultForLinks unreadableVault emptyService downStore 30 = (0, emptyService, downStore)"
proof -
  have v: "config unreadableVault = Some ''/vault'' \<and> hasPermission unreadableVault \<and>
      root unreadableVault = UnreadableDir \<and> available nateOnce"
    by (simp add: unreadableVault_def nateOnce_def nateStore_def)
  have i: "invalidateCache emptyService = emptyService"
    by (simp add: invalidateCache_def emptyService_def)
  have n: "\<not> hasPermission (unreadableVault\<lparr>hasPermission := False\<rparr>)" by simp
  have d: "\<not> available downStore" by (simp add: downStore_def)
  show ?thesis
    using v n d
      scanVaultForLinks_unreadable_root
        [of "''/vault''" unreadableVault nateOnce emptyService 30]
      scanVaultForLinks_unreadable_root
        [of "''/vault''" "unreadableVault\<lparr>hasPermission := False\<rparr>" nateOnce emptyService 30]
      scanVaultForLinks_unreadable_root
        [of "''/vault''" unreadableVault downStore emptyService 30]
    by (simp add: i)
qed

text \<open>
  The vault is configured and may be read, but its root directory cannot be listed.
  The store holds \<open>Nate Stapleton\<close> with one alias. The scan returns 0 and leaves
  the store without any link or alias.
\<close>

theorem scanVaultForLinks_unreadable_root_counterexample:
  "getAllMarkdownFiles ''/vault'' (root unreadableVault) = [] \<and>
   wiki_links nateOnce \<noteq> [] \<and> wiki_link_aliases nateOnce \<noteq> [] \<and>
   scanVaultForLinks unreadableVault emptyService nateOnce 30 =
     (0, emptyService, nateOnce\<lparr>wiki_link_aliases := [], wiki_links := []\<rparr>) \<and>
   wiki_links (snd (snd (scanVaultForLinks unreadableVault emptyService nateOnce 30))) = [] \<and>
   wiki_link_aliases (snd (snd (scanVaultForLinks unreadableVault emptyService nateOnce 30))) = []"
proof -
  have s: "scanVaultForLinks unreadableVault emptyService nateOnce 30 =
     (0, emptyService, nateOnce\<lparr>wiki_link_aliases := [], wiki_links := []\<rparr>)"
    by (simp add: scanVaultForLinks_def unreadableVault_def getAllMarkdownFiles_def
        clearAllLinks_def clearWikiLinks_def bulkAddLinks_def invalidateCache_def
        emptyService_def nateOnce_def nateStore_def)
  have "getAllMarkdownFiles ''/vault'' (root unreadableVault) = []"
    by (simp add: getAllMarkdownFiles_def unreadableVault_def)
  moreover have "wiki_links nateOnce \<noteq> []" "wiki_link_aliases nateOnce \<noteq> []"
    by (simp_all add: nateOnce_def nateStore_def)
  ultimately show ?thesis by (simp add: s)
qed

section \<open>autoLinkText\<close>

lemmas link_defs = replaceLink_def matchAt_def wordBoundary_def startsWith_def eq_ci_def

lemma plainLink_text: "linkText (plainLink t) = t"
  by (simp add: plainLink_def)

text \<open>
  C1. The links are \<open>Nate\<close> and \<open>John Nate Smith\<close>, the text is
  \<open>John Nate Smith\<close>. The longer text is wrapped first, as a whole. Then \<open>Nate\<close>
  is looked for in the result: inside \<open>[[John Nate Smith]]\<close> it neither follows
  \<open>[[\<close> nor precedes \<open>]]\<close>, which is all the pattern asks, and it is wrapped a
  second time. The service's \<open>autoLinkText\<close>, with the flag \<open>i\<close>, does the same on a
  cache that holds the two links.
\<close>

theorem autoLinkText_wraps_inside_link:
  "sortByTextLength [plainLink ''Nate'', plainLink ''John Nate Smith''] =
     [plainLink ''John Nate Smith'', plainLink ''Nate''] \<and>
   replaceLink False ''John Nate Smith'' ''John Nate Smith'' = ''[[John Nate Smith]]'' \<and>
   replaceLink False ''[[John Nate Smith]]'' ''Nate'' = ''[[John [[Nate]] Smith]]'' \<and>
   autoLinkText ''John Nate Smith'' [plainLink ''Nate'', plainLink ''John Nate Smith''] =
     ''[[John [[Nate]] Smith]]'' \<and>
   serviceAutoLinkText johnService downStore 50 ''John Nate Smith'' =
     Inr (''[[John [[Nate]] Smith]]'', johnService)"
proof -
  have s: "sortByTextLength [plainLink ''Nate'', plainLink ''John Nate Smith''] =
     [plainLink ''John Nate Smith'', plainLink ''Nate'']"
    by (simp add: sortByTextLength_def plainLink_text)
  have r1: "replaceLink False ''John Nate Smith'' ''John Nate Smith'' = ''[[John Nate Smith]]''"
    by (simp add: link_defs chr_defs)
  have r2: "replaceLink False ''[[John Nate Smith]]'' ''Nate'' = ''[[John [[Nate]] Smith]]''"
    by (simp add: link_defs chr_defs)
  have r3: "replaceLink True ''John Nate Smith'' ''John Nate Smith'' = ''[[John Nate Smith]]''"
    by (simp add: link_defs chr_defs)
  have r4: "replaceLink True ''[[John Nate Smith]]'' ''Nate'' = ''[[John [[Nate]] Smith]]''"
    by (simp add: link_defs chr_defs)
  have a: "autoLinkText ''John Nate Smith'' [plainLink ''Nate'', plainLink ''John Nate Smith''] =
     ''[[John [[Nate]] Smith]]''"
    by (simp add: autoLinkText_def s plainLink_text r1 r2)
  have l: "loadLinks johnService downStore 50 = Inr johnService"
    by (simp add: loadLinks_def johnService_def)
  have u: "uniqueLinks (map snd (cache johnService)) =
      [plainLink ''John Nate Smith'', plainLink ''Nate'']"
    by (simp add: uniqueLinks_def johnService_def plainLink_text)
  have s': "sortByTextLength [plainLink ''John Nate Smith'', plainLink ''Nate''] =
     [plainLink ''John Nate Smith'', plainLink ''Nate'']"
    by (simp add: sortByTextLength_def plainLink_text)
  have b: "serviceAutoLinkText johnService downStore 50 ''John Nate Smith'' =
     Inr (''[[John [[Nate]] Smith]]'', johnService)"
    by (simp add: serviceAutoLinkText_def l u s' plainLink_text r3 r4)
  show ?thesis using s r1 r2 a b by simp
qed

text \<open>
  C2. A note that holds \<open>[[Great [[Salt]] Lake\<close> gives the scan the link text
  \<open>Great [[Salt\<close>. With it and the link \<open>Salt Lake\<close>, the text
  \<open>Great Salt Lake\<close> becomes \<open>Great [[Salt Lake]]\<close>, and that result, given to
  \<open>autoLinkText\<close> again with the same links, becomes \<open>[[Great [[Salt]] Lake]]\<close>:
  the longer link text now occurs, across the opening of the link made in the first
  run, and the pattern only looks at the two characters on each side of it.
\<close>

theorem autoLinkText_second_run_differs:
  "wikilinkMatches ''[[Great [[Salt]] Lake'' 0 = [''Great [[Salt''] \<and>
   autoLinkText ''Great Salt Lake'' [plainLink ''Salt Lake'', plainLink ''Great [[Salt''] =
     ''Great [[Salt Lake]]'' \<and>
   autoLinkText ''Great [[Salt Lake]]'' [plainLink ''Salt Lake'', plainLink ''Great [[Salt''] =
     ''[[Great [[Salt]] Lake]]'' \<and>
   autoLinkText
     (autoLinkText ''Great Salt Lake'' [plainLink ''Salt Lake'', plainLink ''Great [[Salt''])
     [plainLink ''Salt Lake'', plainLink ''Great [[Salt''] \<noteq>
   autoLinkText ''Great Salt Lake'' [plainLink ''Salt Lake'', plainLink ''Great [[Salt'']"
proof -
  have w: "wikilinkMatches ''[[Great [[Salt]] Lake'' 0 = [''Great [[Salt'']"
    by (simp add: wikilinkAt_def startsWith_def)
  have s: "sortByTextLength [plainLink ''Salt Lake'', plainLink ''Great [[Salt''] =
     [plainLink ''Great [[Salt'', plainLink ''Salt Lake'']"
    by (simp add: sortByTextLength_def plainLink_text)
  have r1: "replaceLink False ''Great Salt Lake'' ''Great [[Salt'' = ''Great Salt Lake''"
    by (simp add: link_defs chr_defs)
  have r2: "replaceLink False ''Great Salt Lake'' ''Salt Lake'' = ''Great [[Salt Lake]]''"
    by (simp add: link_defs chr_defs)
  have r3: "replaceLink False ''Great [[Salt Lake]]'' ''Great [[Salt'' =
      ''[[Great [[Salt]] Lake]]''"
    by (simp add: link_defs chr_defs)
  have r4: "replaceLink False ''[[Great [[Salt]] Lake]]'' ''Salt Lake'' =
      ''[[Great [[Salt]] Lake]]''"
    by (simp add: link_defs chr_defs)
  have a: "autoLinkText ''Great Salt Lake'' [plainLink ''Salt Lake'', plainLink ''Great [[Salt''] =
     ''Great [[Salt Lake]]''"
    by (simp add: autoLinkText_def s plainLink_text r1 r2)
  have b: "autoLinkText ''Great [[Salt Lake]]''
      [plainLink ''Salt Lake'', plainLink ''Great [[Salt''] = ''[[Great [[Salt]] Lake]]''"
    by (simp add: autoLinkText_def s plainLink_text r3 r4)
  show ?thesis using w a b by simp
qed

end
